theory Spec2Isabelle
  imports
    Main
    "HOL-Library.AList"
    "HOL-Library.Char_ord"
    "HOL-Library.List_Lexorder"
    "HOL-Library.Sublist"
begin

section \<open>JSON values and Python dictionaries\<close>

text \<open>
  The scripts work on what \<^verbatim>\<open>json.load\<close> returns: \<^verbatim>\<open>None\<close>, booleans, integers,
  floats, strings, lists and dictionaries with string keys. A Python \<^verbatim>\<open>dict\<close> keeps its
  keys in insertion order and holds each key once, so a dictionary is an association
  list: \<^verbatim>\<open>d[k] = v\<close> is \<open>AList.update\<close> (the value is replaced in place when the key is
  there and appended at the end otherwise), \<^verbatim>\<open>del d[k]\<close> is \<open>AList.delete\<close>,
  \<^verbatim>\<open>k in d\<close> and \<^verbatim>\<open>d[k]\<close> read \<open>map_of\<close>. A string is the list of the bytes of its
  UTF-8 encoding. A float is carried by the text of its \<^verbatim>\<open>repr\<close>, which is all that
  \<^verbatim>\<open>str\<close> and \<^verbatim>\<open>json.dump\<close> read of it; no arithmetic is done on floats anywhere in
  the scripts. The dictionaries that the filter builds are keyed by the \<^verbatim>\<open>id\<close> of a
  catalogue record, which need not be a string; they have a model of their own below.
\<close>

datatype json =
    JNull
  | JBool bool
  | JInt int
  | JFloat string
  | JStr string
  | JArr "json list"
  | JObj "(string \<times> json) list"

type_synonym dict = "(string \<times> json) list"

text \<open>\<^verbatim>\<open>d.get(key, default)\<close>\<close>

definition dict_get :: "dict \<Rightarrow> string \<Rightarrow> json \<Rightarrow> json" where
  "dict_get d key dflt = (case map_of d key of None \<Rightarrow> dflt | Some v \<Rightarrow> v)"

text \<open>
  The uncaught exceptions of the scripts, and \<^verbatim>\<open>sys.exit(1)\<close>. \<open>Unmodelled\<close> is not a
  Python exception: it marks what the model leaves out. That is the order \<^verbatim>\<open>sorted\<close> gives
  to numeric keys with a float among them, and a model map without string keys in
  \<^verbatim>\<open>main\<close>, which no run builds (\<open>main_never_Unmodelled\<close>), and, in the store of the last
  section, an address that holds no object, which no Python state has.
\<close>

datatype py_error =
    AttributeError
  | KeyError
  | TypeError
  | RecursionError
  | SystemExit nat
  | Unmodelled

subsection \<open>Python string operations\<close>

text \<open>\<^verbatim>\<open>s.endswith(suffix)\<close>\<close>

definition endswith :: "string \<Rightarrow> string \<Rightarrow> bool" where
  "endswith s suf \<longleftrightarrow> length suf \<le> length s \<and> drop (length s - length suf) s = suf"

text \<open>\<^verbatim>\<open>sub in s\<close> for two strings\<close>

definition is_substring :: "string \<Rightarrow> string \<Rightarrow> bool" where
  "is_substring sub s \<longleftrightarrow> list_ex (\<lambda>i. take (length sub) (drop i s) = sub) [0..<Suc (length s)]"

text \<open>
  The code points that \<^verbatim>\<open>str.strip()\<close> removes, in UTF-8: U+0009 to U+000D, U+001C to
  U+0020, U+0085, U+00A0, U+1680, U+2000 to U+200A, U+2028, U+2029, U+202F, U+205F and
  U+3000.
\<close>

definition py_whitespace :: "string list" where
  "py_whitespace =
     [[CHR 0x09], [CHR 0x0A], [CHR 0x0B], [CHR 0x0C], [CHR 0x0D],
      [CHR 0x1C], [CHR 0x1D], [CHR 0x1E], [CHR 0x1F], [CHR 0x20],
      [CHR 0xC2, CHR 0x85], [CHR 0xC2, CHR 0xA0],
      [CHR 0xE1, CHR 0x9A, CHR 0x80],
      [CHR 0xE2, CHR 0x80, CHR 0x80], [CHR 0xE2, CHR 0x80, CHR 0x81],
      [CHR 0xE2, CHR 0x80, CHR 0x82], [CHR 0xE2, CHR 0x80, CHR 0x83],
      [CHR 0xE2, CHR 0x80, CHR 0x84], [CHR 0xE2, CHR 0x80, CHR 0x85],
      [CHR 0xE2, CHR 0x80, CHR 0x86], [CHR 0xE2, CHR 0x80, CHR 0x87],
      [CHR 0xE2, CHR 0x80, CHR 0x88], [CHR 0xE2, CHR 0x80, CHR 0x89],
      [CHR 0xE2, CHR 0x80, CHR 0x8A],
      [CHR 0xE2, CHR 0x80, CHR 0xA8], [CHR 0xE2, CHR 0x80, CHR 0xA9],
      [CHR 0xE2, CHR 0x80, CHR 0xAF],
      [CHR 0xE2, CHR 0x81, CHR 0x9F],
      [CHR 0xE3, CHR 0x80, CHR 0x80]]"

text \<open>The number of bytes of the code point of \<open>ws\<close> that \<open>s\<close> starts with, 0 if none.\<close>

definition leading :: "string list \<Rightarrow> string \<Rightarrow> nat" where
  "leading ws s =
     (case find (\<lambda>w. w \<noteq> [] \<and> take (length w) s = w) ws of
        None \<Rightarrow> 0
      | Some w \<Rightarrow> length w)"

function lstrip_of :: "string list \<Rightarrow> string \<Rightarrow> string" where
  "lstrip_of ws s = (if leading ws s = 0 then s else lstrip_of ws (drop (leading ws s) s))"
  by pat_completeness auto
termination
proof (relation "measure (\<lambda>(ws, s). length s)")
  show "wf (measure (\<lambda>(ws, s). length s))" by simp
next
  fix ws :: "string list" and s :: string
  assume nz: "leading ws s \<noteq> 0"
  have "leading ws s \<le> length s"
  proof (cases "find (\<lambda>w. w \<noteq> [] \<and> take (length w) s = w) ws")
    case None
    then show ?thesis by (simp add: leading_def)
  next
    case (Some w)
    then have "take (length w) s = w" by (auto simp: find_Some_iff)
    then have "length (take (length w) s) = length w" by simp
    then have "length w \<le> length s" by simp
    with Some show ?thesis by (simp add: leading_def)
  qed
  with nz show "((ws, drop (leading ws s) s), (ws, s)) \<in> measure (\<lambda>(ws, s). length s)"
    by simp
qed

declare lstrip_of.simps [simp del]

text \<open>\<^verbatim>\<open>s.strip()\<close>: whitespace is removed at the front, then at the back.\<close>

definition strip :: "string \<Rightarrow> string" where
  "strip s = rev (lstrip_of (map rev py_whitespace) (rev (lstrip_of py_whitespace s)))"

text \<open>
  \<^verbatim>\<open>s.lower()\<close> on the ASCII letters. The scripts only compare the result with \<^verbatim>\<open>"y"\<close>,
  and no code point outside ASCII has the lower case \<^verbatim>\<open>y\<close>.
\<close>

definition lower_char :: "char \<Rightarrow> char" where
  "lower_char c =
     (if CHR ''A'' \<le> c \<and> c \<le> CHR ''Z'' then char_of (of_char c + (32::nat)) else c)"

definition lower :: "string \<Rightarrow> string" where
  "lower s = map lower_char s"

text \<open>
  The decimal digits of an integer that is not negative, as \<^verbatim>\<open>str\<close> prints an
  \<^verbatim>\<open>int\<close>.
\<close>

function digits :: "int \<Rightarrow> string" where
  "digits n =
     (if n < 10 then [char_of (48 + n)]
      else digits (n div 10) @ [char_of (48 + n mod 10)])"
  by pat_completeness auto
termination
  by (relation "measure nat") auto

declare digits.simps [simp del]

text \<open>
  \<^verbatim>\<open>str(x)\<close>. For a list or a dictionary Python prints the \<^verbatim>\<open>repr\<close> of the items between
  brackets; the model prints strings between single quotes without the escapes of
  \<^verbatim>\<open>repr\<close>, so the text between the brackets is exact only for strings that need no
  escape. The scripts test a \<^verbatim>\<open>str(x)\<close> only for its ending and for equality with
  \<^verbatim>\<open>"0"\<close> or \<^verbatim>\<open>"0.0"\<close> once trimmed. The flag says whether a string is quoted
  (\<^verbatim>\<open>repr\<close>) or not (\<^verbatim>\<open>str\<close>).
\<close>

fun join :: "string \<Rightarrow> string list \<Rightarrow> string" where
  "join sep [] = []"
| "join sep [x] = x"
| "join sep (x # y # ys) = x @ sep @ join sep (y # ys)"

fun py_text :: "bool \<Rightarrow> json \<Rightarrow> string" where
  "py_text q JNull = ''None''"
| "py_text q (JBool b) = (if b then ''True'' else ''False'')"
| "py_text q (JInt i) = (if i < 0 then CHR ''-'' # digits (- i) else digits i)"
| "py_text q (JFloat r) = r"
| "py_text q (JStr s) = (if q then [CHR 0x27] @ s @ [CHR 0x27] else s)"
| "py_text q (JArr xs) = ''['' @ join '', '' (map (py_text True) xs) @ '']''"
| "py_text q (JObj kvs) =
     ''{'' @ join '', '' (map (\<lambda>kv. [CHR 0x27] @ fst kv @ [CHR 0x27] @ '': '' @ py_text True (snd kv)) kvs)
       @ ''}''"

definition py_str :: "json \<Rightarrow> string" where
  "py_str x = py_text False x"

section \<open>Deep merge (install.py)\<close>

text \<open>
  \<^verbatim>\<open>
  def deep_merge(base: dict, override: dict) -> dict:
      result = base.copy()
      for key, value in override.items():
          if key in result and isinstance(result[key], dict) and isinstance(value, dict):
              result[key] = deep_merge(result[key], value)
          else:
              result[key] = value
      return result
  \<close>
  The first argument is the loop variable \<^verbatim>\<open>result\<close>, which starts as the copy of
  \<^verbatim>\<open>base\<close>; the second is what is left of \<^verbatim>\<open>override.items()\<close>. The recursive call
  \<^verbatim>\<open>deep_merge(result[key], value)\<close> starts a new loop on the two nested dictionaries.
  The interpreter's recursion limit is not part of this model.
\<close>

fun deep_merge :: "dict \<Rightarrow> dict \<Rightarrow> dict" where
  "deep_merge result [] = result"
| "deep_merge result ((key, value) # items) =
     deep_merge
       (case (map_of result key, value) of
          (Some (JObj b), JObj ov) \<Rightarrow> AList.update key (JObj (deep_merge b ov)) result
        | _ \<Rightarrow> AList.update key value result)
       items"

text \<open>What one pass of the loop stores at \<open>key\<close>.\<close>

definition merged_value :: "json option \<Rightarrow> json \<Rightarrow> json" where
  "merged_value old value =
     (case (old, value) of
        (Some (JObj b), JObj ov) \<Rightarrow> JObj (deep_merge b ov)
      | _ \<Rightarrow> value)"

text \<open>
  The algorithm in the words of the specification: start from a copy of \<open>base\<close>; for each
  key of \<open>override\<close>, when the key exists in the result and both the existing value and
  the override value are mappings, merge them recursively and store the result; otherwise
  the override value replaces or introduces the key.
\<close>

fun merge_spec :: "dict \<Rightarrow> dict \<Rightarrow> dict" where
  "merge_spec base override =
     fold (\<lambda>kv result.
            (case (map_of result (fst kv), snd kv) of
               (Some (JObj b), JObj ov) \<Rightarrow> AList.update (fst kv) (JObj (merge_spec b ov)) result
             | _ \<Rightarrow> AList.update (fst kv) (snd kv) result))
          override base"

declare merge_spec.simps [simp del]

section \<open>The free-model filter (install.py, sync\_models.py)\<close>

text \<open>
  The two scripts hold the same text for \<^verbatim>\<open>is_free_by_suffix\<close>, \<^verbatim>\<open>is_free_by_pricing\<close>,
  \<^verbatim>\<open>collect_free_models\<close> and \<^verbatim>\<open>MANUAL_MODELS\<close>; one model serves both.
\<close>

definition MANUAL_MODELS :: "(string \<times> string) list" where
  "MANUAL_MODELS =
     [(''giga-potato'', ''Giga Potato (free)''),
      (''giga-potato-thinking'', ''Giga Potato Thinking (free)'')]"

definition FALLBACK_MODELS :: "(string \<times> string) list" where
  "FALLBACK_MODELS =
     [(''arcee-ai/trinity-large-preview:free'', ''Arcee AI: Trinity Large Preview (free)''),
      (''corethink:free'', ''CoreThink (free)''),
      (''giga-potato'', ''Giga Potato (free)''),
      (''giga-potato-thinking'', ''Giga Potato Thinking (free)''),
      (''minimax/minimax-m2.5:free'', ''MiniMax: MiniMax M2.5 (free)''),
      (''openrouter/free'', ''Free Models Router (free)''),
      (''qwen/qwen3-235b-a22b-thinking-2507'', ''Qwen: Qwen3 235B A22B Thinking 2507''),
      (''qwen/qwen3-vl-235b-a22b-thinking'', ''Qwen: Qwen3 VL 235B A22B Thinking''),
      (''qwen/qwen3-vl-30b-a3b-thinking'', ''Qwen: Qwen3 VL 30B A3B Thinking''),
      (''stepfun/step-3.5-flash:free'', ''StepFun: Step 3.5 Flash (free)''),
      (''z-ai/glm-5:free'', ''Z.ai: GLM 5 (free)'')]"

subsection \<open>Dictionaries keyed by the id of a record\<close>

text \<open>
  The filter uses the \<^verbatim>\<open>id\<close> of a catalogue record as a dictionary key, and the record is
  whatever the catalogue sent: the key may be \<^verbatim>\<open>None\<close>, a boolean, an integer, a float or
  a string (a list or a dictionary is not hashable). Python finds a key by \<^verbatim>\<open>==\<close>, and
  \<^verbatim>\<open>True == 1 == 1.0\<close>: booleans and numbers are one key when they are the same number.

  A float is carried by its \<^verbatim>\<open>repr\<close>, so the number is read back from that text:
  an optional sign, then \<^verbatim>\<open>inf\<close>, \<^verbatim>\<open>nan\<close>, or digits with an optional fraction and an
  optional exponent (\<^verbatim>\<open>2.5\<close>, \<^verbatim>\<open>1e+16\<close>, \<^verbatim>\<open>1.5e-07\<close>). The \<^verbatim>\<open>repr\<close> is the shortest
  decimal that rounds to the float, so a float is a whole number exactly when its
  \<^verbatim>\<open>repr\<close> is one, and it is then the double nearest to that whole number (ties to the even
  mantissa of 53 bits).
\<close>

function bit_length :: "int \<Rightarrow> nat" where
  "bit_length n = (if n \<le> 0 then 0 else Suc (bit_length (n div 2)))"
  by pat_completeness auto
termination
  by (relation "measure nat") auto

declare bit_length.simps [simp del]

definition nearest_double :: "int \<Rightarrow> int" where
  "nearest_double n =
     (let s = bit_length n - 53;
          q = n div 2 ^ s;
          r = n mod 2 ^ s
      in if 2 ^ s < 2 * r \<or> (2 * r = 2 ^ s \<and> odd q) then (q + 1) * 2 ^ s else q * 2 ^ s)"

definition int_of_digits :: "string \<Rightarrow> int" where
  "int_of_digits s = foldl (\<lambda>n c. 10 * n + (of_char c - 48)) 0 s"

text \<open>The digits \<open>d\<close> and the power of ten \<open>e\<close> of an unsigned \<^verbatim>\<open>repr\<close>, which reads \<open>d * 10 ^ e\<close>.\<close>

definition decimal_of :: "string \<Rightarrow> int \<times> int" where
  "decimal_of u =
     (let m = takeWhile (\<lambda>c. c \<noteq> CHR ''e'') u;
          e = drop 1 (dropWhile (\<lambda>c. c \<noteq> CHR ''e'') u);
          ip = takeWhile (\<lambda>c. c \<noteq> CHR ''.'') m;
          fp = drop 1 (dropWhile (\<lambda>c. c \<noteq> CHR ''.'') m);
          ex = (if take 1 e = ''-'' then - int_of_digits (drop 1 e)
                else int_of_digits (if take 1 e = ''+'' then drop 1 e else e))
      in (int_of_digits (ip @ fp), ex - int (length fp)))"

text \<open>The integer that the float with the \<^verbatim>\<open>repr\<close> \<open>r\<close> equals, if there is one.\<close>

definition float_int :: "string \<Rightarrow> int option" where
  "float_int r =
     (let neg = (take 1 r = ''-'');
          u = (if neg then drop 1 r else r);
          d = fst (decimal_of u);
          e = snd (decimal_of u)
      in if u = ''inf'' \<or> u = ''nan'' then None
         else if 0 \<le> e then
           Some ((if neg then - 1 else 1) * nearest_double (d * 10 ^ nat e))
         else if d mod 10 ^ nat (- e) = 0 then
           Some ((if neg then - 1 else 1) * nearest_double (d div 10 ^ nat (- e)))
         else None)"

fun key_int :: "json \<Rightarrow> int option" where
  "key_int (JBool b) = Some (if b then 1 else 0)"
| "key_int (JInt i) = Some i"
| "key_int (JFloat r) = float_int r"
| "key_int k = None"

text \<open>
  \<^verbatim>\<open>a == b\<close> for two keys. Two floats that are not whole numbers are equal when they have
  the same \<^verbatim>\<open>repr\<close>; \<^verbatim>\<open>json.loads\<close> gives one object for every \<^verbatim>\<open>NaN\<close>, which a
  dictionary finds again by identity.
\<close>

definition key_eq :: "json \<Rightarrow> json \<Rightarrow> bool" where
  "key_eq a b \<longleftrightarrow> a = b \<or> (key_int a \<noteq> None \<and> key_int a = key_int b)"

type_synonym id_dict = "(json \<times> json) list"

text \<open>\<^verbatim>\<open>d.get(k)\<close>\<close>

fun getitem :: "id_dict \<Rightarrow> json \<Rightarrow> json option" where
  "getitem [] k = None"
| "getitem ((k', v) # d) k = (if key_eq k' k then Some v else getitem d k)"

text \<open>
  \<^verbatim>\<open>d[k] = v\<close>: when the dictionary has an equal key it keeps that key, at its place, with
  the new value; otherwise the item goes to the end.
\<close>

fun setitem :: "json \<Rightarrow> json \<Rightarrow> id_dict \<Rightarrow> id_dict" where
  "setitem k v [] = [(k, v)]"
| "setitem k v ((k', v') # d) =
     (if key_eq k' k then (k', v) # d else (k', v') # setitem k v d)"

subsection \<open>The two rules and the filter\<close>

text \<open>
  \<^verbatim>\<open>return str(m.get("id", "")).endswith(":free")\<close>.
  Only a dictionary has \<^verbatim>\<open>get\<close>; any other record raises \<^verbatim>\<open>AttributeError\<close>.
\<close>

definition is_free_by_suffix :: "json \<Rightarrow> py_error + bool" where
  "is_free_by_suffix m =
     (case m of
        JObj kvs \<Rightarrow> Inr (endswith (py_str (dict_get kvs ''id'' (JStr ''''))) '':free'')
      | _ \<Rightarrow> Inl AttributeError)"

text \<open>
  \<^verbatim>\<open>
  p = m.get("pricing", {})
  return (str(p.get("prompt", "")).strip() in ("0", "0.0") and
          str(p.get("completion", "")).strip() in ("0", "0.0"))
  \<close>
\<close>

definition is_free_by_pricing :: "json \<Rightarrow> py_error + bool" where
  "is_free_by_pricing m =
     (case m of
        JObj kvs \<Rightarrow>
          (case dict_get kvs ''pricing'' (JObj []) of
             JObj p \<Rightarrow>
               Inr (strip (py_str (dict_get p ''prompt'' (JStr ''''))) \<in> set [''0'', ''0.0''] \<and>
                    strip (py_str (dict_get p ''completion'' (JStr ''''))) \<in> set [''0'', ''0.0''])
           | _ \<Rightarrow> Inl AttributeError)
      | _ \<Rightarrow> Inl AttributeError)"

text \<open>A list comprehension \<^verbatim>\<open>[m for m in models if p(m)]\<close> whose test may raise.\<close>

fun filter_raising :: "('a \<Rightarrow> py_error + bool) \<Rightarrow> 'a list \<Rightarrow> py_error + 'a list" where
  "filter_raising p [] = Inr []"
| "filter_raising p (x # xs) =
     (case p x of
        Inl e \<Rightarrow> Inl e
      | Inr b \<Rightarrow>
          (case filter_raising p xs of
             Inl e \<Rightarrow> Inl e
           | Inr ys \<Rightarrow> Inr (if b then x # ys else ys)))"

text \<open>What can be a dictionary key: a list or a dictionary cannot.\<close>

fun hashable :: "json \<Rightarrow> bool" where
  "hashable (JArr xs) = False"
| "hashable (JObj kvs) = False"
| "hashable k = True"

text \<open>
  \<^verbatim>\<open>
  for m in by_suffix + by_pricing:
      results[m["id"]] = m.get("name", m["id"])
  \<close>
  \<^verbatim>\<open>m["id"]\<close> raises \<^verbatim>\<open>KeyError\<close> when the record has no \<^verbatim>\<open>id\<close>, and the assignment
  raises \<^verbatim>\<open>TypeError\<close> when the id is not hashable. Every other id is stored. Subscripting
  a record that is not a dictionary raises \<^verbatim>\<open>TypeError\<close>.
\<close>

fun add_models :: "json list \<Rightarrow> id_dict \<Rightarrow> py_error + id_dict" where
  "add_models [] results = Inr results"
| "add_models (m # ms) results =
     (case m of
        JObj kvs \<Rightarrow>
          (case map_of kvs ''id'' of
             None \<Rightarrow> Inl KeyError
           | Some k \<Rightarrow>
               if hashable k then add_models ms (setitem k (dict_get kvs ''name'' k) results)
               else Inl TypeError)
      | _ \<Rightarrow> Inl TypeError)"

text \<open>
  \<^verbatim>\<open>
  for mid, name in MANUAL_MODELS.items():
      results[mid] = name
  \<close>
\<close>

definition add_manual :: "(string \<times> string) list \<Rightarrow> id_dict \<Rightarrow> id_dict" where
  "add_manual manual results =
     fold (\<lambda>(mid, name) results. setitem (JStr mid) (JStr name) results) manual results"

text \<open>
  \<^verbatim>\<open>collect_free_models(models)\<close>. The source reads the module constant
  \<^verbatim>\<open>MANUAL_MODELS\<close>; here the manual map is the first argument, and the scripts call
  \<open>collect_free_models MANUAL_MODELS\<close>.
\<close>

definition collect_free_models :: "(string \<times> string) list \<Rightarrow> json list \<Rightarrow> py_error + id_dict" where
  "collect_free_models manual models =
     (case filter_raising is_free_by_suffix models of
        Inl e \<Rightarrow> Inl e
      | Inr by_suffix \<Rightarrow>
          (case filter_raising is_free_by_pricing models of
             Inl e \<Rightarrow> Inl e
           | Inr by_pricing \<Rightarrow>
               (case add_models (by_suffix @ by_pricing) [] of
                  Inl e \<Rightarrow> Inl e
                | Inr results \<Rightarrow> Inr (add_manual manual results))))"

subsection \<open>The model entries\<close>

text \<open>
  \<^verbatim>\<open>sorted(id_to_name.items())\<close>. The keys of a dictionary differ, so the items are
  ordered by key and no name is compared. Strings are ordered by code point, which is the
  order of their UTF-8 bytes; booleans and integers are ordered as numbers. \<^verbatim>\<open><\<close>
  between a string and any other key, and between \<^verbatim>\<open>None\<close> and any key, raises
  \<^verbatim>\<open>TypeError\<close>, and a sort of two items or more that has both has to compare them. A
  dictionary with one item or none is sorted without a comparison. The order of numbers
  with a float among them needs the value of the float (and what the sort does with
  \<^verbatim>\<open>NaN\<close>): that one case is left out, and no run of \<^verbatim>\<open>main\<close> gets there.
\<close>

fun key_text :: "json \<Rightarrow> string" where
  "key_text (JStr s) = s"
| "key_text k = []"

fun key_number :: "json \<Rightarrow> int" where
  "key_number (JBool b) = (if b then 1 else 0)"
| "key_number (JInt i) = i"
| "key_number k = 0"

fun is_str :: "json \<Rightarrow> bool" where
  "is_str (JStr s) = True"
| "is_str k = False"

fun is_integer :: "json \<Rightarrow> bool" where
  "is_integer (JBool b) = True"
| "is_integer (JInt i) = True"
| "is_integer k = False"

fun is_number :: "json \<Rightarrow> bool" where
  "is_number (JBool b) = True"
| "is_number (JInt i) = True"
| "is_number (JFloat r) = True"
| "is_number k = False"

definition sorted_items :: "id_dict \<Rightarrow> py_error + id_dict" where
  "sorted_items items =
     (if length items \<le> 1 then Inr items
      else if list_all (\<lambda>kv. is_str (fst kv)) items then
        Inr (sort_key (\<lambda>kv. key_text (fst kv)) items)
      else if list_all (\<lambda>kv. is_integer (fst kv)) items then
        Inr (sort_key (\<lambda>kv. key_number (fst kv)) items)
      else if list_all (\<lambda>kv. is_number (fst kv)) items then Inl Unmodelled
      else Inl TypeError)"

text \<open>
  \<^verbatim>\<open>
  return {mid: {"name": name} for mid, name in sorted(id_to_name.items())}
  \<close>
\<close>

definition build_model_entries :: "id_dict \<Rightarrow> py_error + id_dict" where
  "build_model_entries id_to_name =
     (case sorted_items id_to_name of
        Inl e \<Rightarrow> Inl e
      | Inr items \<Rightarrow>
          Inr (fold (\<lambda>(mid, name) entries. setitem mid (JObj [(''name'', name)]) entries)
                    items []))"

section \<open>The install run (install.py, main)\<close>

definition PROVIDER_KEY :: string where
  "PROVIDER_KEY = ''kilo-gateway-free''"

text \<open>What the script finds at the path of \<^verbatim>\<open>opencode.json\<close>.\<close>

datatype config_file =
    NoFile
  | InvalidJSON
  | Unreadable
  | Parsed json

text \<open>
  Lines 168 to 178: no file and a file that is not JSON both give the empty dictionary;
  any other failure to read exits with status 1.
\<close>

definition load_existing :: "config_file \<Rightarrow> py_error + json" where
  "load_existing file =
     (case file of
        NoFile \<Rightarrow> Inr (JObj [])
      | InvalidJSON \<Rightarrow> Inr (JObj [])
      | Unreadable \<Rightarrow> Inl (SystemExit 1)
      | Parsed existing \<Rightarrow> Inr existing)"

text \<open>
  \<^verbatim>\<open>
  if "$schema" not in existing:
      existing["$schema"] = "https://opencode.ai/config.json"
  \<close>
  A JSON file may hold a value that is not an object. On a list \<^verbatim>\<open>in\<close> compares the
  items and on a string it looks for a substring; the assignment then raises
  \<^verbatim>\<open>TypeError\<close>, and when it is skipped the \<^verbatim>\<open>existing.get\<close> of the next statement
  raises \<^verbatim>\<open>AttributeError\<close>. On \<^verbatim>\<open>None\<close>, a boolean or a number \<^verbatim>\<open>in\<close> itself raises
  \<^verbatim>\<open>TypeError\<close>.
\<close>

definition ensure_schema :: "json \<Rightarrow> py_error + dict" where
  "ensure_schema existing =
     (case existing of
        JObj kvs \<Rightarrow>
          Inr (if map_of kvs ''$schema'' = None
               then AList.update ''$schema'' (JStr ''https://opencode.ai/config.json'') kvs
               else kvs)
      | JArr xs \<Rightarrow> if JStr ''$schema'' \<in> set xs then Inl AttributeError else Inl TypeError
      | JStr s \<Rightarrow> if is_substring ''$schema'' s then Inl AttributeError else Inl TypeError
      | _ \<Rightarrow> Inl TypeError)"

text \<open>
  \<^verbatim>\<open>existing_provider = existing.get("provider", {}).get(PROVIDER_KEY, {})\<close>
\<close>

definition existing_provider :: "dict \<Rightarrow> py_error + json" where
  "existing_provider existing =
     (case dict_get existing ''provider'' (JObj []) of
        JObj providers \<Rightarrow> Inr (dict_get providers PROVIDER_KEY (JObj []))
      | _ \<Rightarrow> Inl AttributeError)"

text \<open>The dictionary literal of lines 185 to 194.\<close>

definition provider_defaults :: "dict \<Rightarrow> dict" where
  "provider_defaults model_entries =
     [(''npm'', JStr ''@ai-sdk/openai-compatible''),
      (''name'', JStr ''Kilo Gateway Free''),
      (''options'', JObj
         [(''baseURL'', JStr ''https://api.kilo.ai/api/openrouter/''),
          (''apiKey'', JStr ''anonymous''),
          (''headers'', JObj [(''User-Agent'', JStr ''opencode-kilo-provider'')])]),
      (''models'', JObj model_entries)]"

text \<open>
  \<^verbatim>\<open>updated_provider = deep_merge(existing_provider, {...})\<close>. The entry found in the
  file may be any JSON value. A list has \<^verbatim>\<open>copy\<close>, and the first pass of the loop then
  raises \<^verbatim>\<open>TypeError\<close> (a list is indexed by integers); every other value that is not a
  dictionary has no \<^verbatim>\<open>copy\<close>.
\<close>

definition updated_provider :: "json \<Rightarrow> dict \<Rightarrow> py_error + dict" where
  "updated_provider entry model_entries =
     (case entry of
        JObj e \<Rightarrow> Inr (deep_merge e (provider_defaults model_entries))
      | JArr xs \<Rightarrow> Inl TypeError
      | _ \<Rightarrow> Inl AttributeError)"

text \<open>
  Lines 180 to 196, from the loaded document and the model entries to the document that
  is written:
  \<^verbatim>\<open>merged = deep_merge(existing, {"provider": {PROVIDER_KEY: updated_provider}})\<close>
\<close>

definition install_config :: "json \<Rightarrow> dict \<Rightarrow> py_error + json" where
  "install_config loaded model_entries =
     (case ensure_schema loaded of
        Inl e \<Rightarrow> Inl e
      | Inr existing \<Rightarrow>
          (case existing_provider existing of
             Inl e \<Rightarrow> Inl e
           | Inr entry \<Rightarrow>
               (case updated_provider entry model_entries of
                  Inl e \<Rightarrow> Inl e
                | Inr updated \<Rightarrow>
                    Inr (JObj (deep_merge existing
                                 [(''provider'', JObj [(PROVIDER_KEY, JObj updated)])])))))"

text \<open>
  Lines 139 to 148: the model map is \<^verbatim>\<open>dict(FALLBACK_MODELS)\<close> in offline mode and when
  the fetch failed (\<open>None\<close>), else what the filter makes of the fetched list.
\<close>

definition resolve_models :: "bool \<Rightarrow> json list option \<Rightarrow> py_error + id_dict" where
  "resolve_models offline fetched =
     (if offline then Inr (map (\<lambda>(mid, name). (JStr mid, JStr name)) FALLBACK_MODELS)
      else (case fetched of
              None \<Rightarrow> Inr (map (\<lambda>(mid, name). (JStr mid, JStr name)) FALLBACK_MODELS)
            | Some raw \<Rightarrow> collect_free_models MANUAL_MODELS raw))"

text \<open>The model entries as a JSON object, when every key is a string.\<close>

fun string_keys :: "id_dict \<Rightarrow> dict option" where
  "string_keys [] = Some []"
| "string_keys ((JStr s, v) # kvs) = map_option (\<lambda>rest. (s, v) # rest) (string_keys kvs)"
| "string_keys (kv # kvs) = None"

text \<open>
  \<^verbatim>\<open>main()\<close>. The arguments are what the run reads from outside: the two flags, the
  answer of \<^verbatim>\<open>fetch_models\<close> (\<open>None\<close> when the fetch failed, else the list under
  \<^verbatim>\<open>data\<close>), the file at the configuration path, and whether that file can be written.
  A failed write exits with status 1. The path lookup is left out, and of the printing
  only what can raise: line 156 formats each key with \<^verbatim>\<open>{mid:<53}\<close>, which
  \<^verbatim>\<open>None\<close> does not support. The model map of a run holds string keys, those of
  \<^verbatim>\<open>FALLBACK_MODELS\<close> or of \<^verbatim>\<open>MANUAL_MODELS\<close>, so \<^verbatim>\<open>sorted\<close> raises when it holds any other
  key, and the entries that reach the document have string keys only.
\<close>

datatype install_outcome = DryRun | Persisted json

definition main :: "bool \<Rightarrow> bool \<Rightarrow> json list option \<Rightarrow> config_file \<Rightarrow> bool \<Rightarrow> py_error + install_outcome" where
  "main dry_run offline fetched file writable =
     (case resolve_models offline fetched of
        Inl e \<Rightarrow> Inl e
      | Inr id_to_name \<Rightarrow>
          (case build_model_entries id_to_name of
             Inl e \<Rightarrow> Inl e
           | Inr entries \<Rightarrow>
               if JNull \<in> fst ` set entries then Inl TypeError
               else if dry_run then Inr DryRun
               else (case load_existing file of
                       Inl e \<Rightarrow> Inl e
                     | Inr loaded \<Rightarrow>
                         (case string_keys entries of
                            None \<Rightarrow> Inl Unmodelled
                          | Some model_entries \<Rightarrow>
                              (case install_config loaded model_entries of
                                 Inl e \<Rightarrow> Inl e
                               | Inr merged \<Rightarrow>
                                   if writable then Inr (Persisted merged)
                                   else Inl (SystemExit 1))))))"

text \<open>The value found in a document by following keys through nested dictionaries.\<close>

fun get_path :: "json \<Rightarrow> string list \<Rightarrow> json option" where
  "get_path j [] = Some j"
| "get_path (JObj kvs) (k # ks) =
     (case map_of kvs k of None \<Rightarrow> None | Some v \<Rightarrow> get_path v ks)"
| "get_path j (k # ks) = None"

text \<open>The subtree the install run owns.\<close>

definition owned_path :: "string list" where
  "owned_path = [''provider'', PROVIDER_KEY]"

section \<open>Removal (uninstall.py, remove\_kilo\_anonymous.py)\<close>

text \<open>
  The two \<^verbatim>\<open>main\<close> functions differ in the key they remove and in what they print.
  \<^verbatim>\<open>
  providers = config.get("provider", {})
  if KEY not in providers: sys.exit(0)
  confirm = input(...)
  if confirm.strip().lower() != "y": sys.exit(0)
  del providers[KEY]
  if not providers:
      del config["provider"]
  json.dump(config, f, indent=2)
  \<close>
  \<^verbatim>\<open>providers\<close> is the dictionary stored in \<^verbatim>\<open>config\<close> (the default \<^verbatim>\<open>{}\<close> never holds
  the key), so the deletion shows in \<^verbatim>\<open>config["provider"]\<close>. When \<^verbatim>\<open>providers\<close> is a list
  or a string, \<^verbatim>\<open>in\<close> is membership or substring search and \<^verbatim>\<open>del\<close> raises \<^verbatim>\<open>TypeError\<close>.
\<close>

datatype removal_outcome =
    NoConfigFile
  | NotFound
  | Aborted
  | Removed json

definition remove_provider :: "string \<Rightarrow> config_file \<Rightarrow> string \<Rightarrow> bool \<Rightarrow> py_error + removal_outcome" where
  "remove_provider key file confirm writable =
     (case file of
        NoFile \<Rightarrow> Inr NoConfigFile
      | InvalidJSON \<Rightarrow> Inl (SystemExit 1)
      | Unreadable \<Rightarrow> Inl (SystemExit 1)
      | Parsed (JObj config) \<Rightarrow>
          (case dict_get config ''provider'' (JObj []) of
             JObj providers \<Rightarrow>
               if map_of providers key = None then Inr NotFound
               else if lower (strip confirm) \<noteq> ''y'' then Inr Aborted
               else
                 (let providers' = AList.delete key providers;
                      config' = AList.update ''provider'' (JObj providers') config;
                      config'' = (if providers' = [] then AList.delete ''provider'' config' else config')
                  in if writable then Inr (Removed (JObj config'')) else Inl (SystemExit 1))
           | JArr xs \<Rightarrow>
               if JStr key \<notin> set xs then Inr NotFound
               else if lower (strip confirm) \<noteq> ''y'' then Inr Aborted
               else Inl TypeError
           | JStr s \<Rightarrow>
               if \<not> is_substring key s then Inr NotFound
               else if lower (strip confirm) \<noteq> ''y'' then Inr Aborted
               else Inl TypeError
           | _ \<Rightarrow> Inl TypeError)
      | Parsed _ \<Rightarrow> Inl AttributeError)"

definition OLD_KEY :: string where
  "OLD_KEY = ''kilo-anonymous''"

definition uninstall_main :: "config_file \<Rightarrow> string \<Rightarrow> bool \<Rightarrow> py_error + removal_outcome" where
  "uninstall_main = remove_provider PROVIDER_KEY"

definition remove_kilo_anonymous_main :: "config_file \<Rightarrow> string \<Rightarrow> bool \<Rightarrow> py_error + removal_outcome" where
  "remove_kilo_anonymous_main = remove_provider OLD_KEY"

section \<open>Deep merge on a store of mutable objects\<close>

text \<open>
  Whether \<^verbatim>\<open>deep_merge\<close> changes its arguments depends on which dictionary objects it
  writes to, so here dictionaries and lists are objects in a store and a value refers to
  them by address. The store is the list of the objects allocated so far; a new object
  gets the next address. \<^verbatim>\<open>base.copy()\<close> allocates a dictionary with the items of
  \<^verbatim>\<open>base\<close> (the nested objects are shared, not copied), and \<^verbatim>\<open>result[key] = v\<close> writes
  the object at the address of \<^verbatim>\<open>result\<close>.
\<close>

type_synonym addr = nat

datatype hval =
    HNull
  | HBool bool
  | HInt int
  | HFloat string
  | HStr string
  | HRef addr

datatype hobj =
    HDict "(string \<times> hval) list"
  | HList "hval list"

type_synonym heap = "hobj list"

definition heap_lookup :: "heap \<Rightarrow> addr \<Rightarrow> hobj option" where
  "heap_lookup h a = (if a < length h then Some (h ! a) else None)"

text \<open>\<^verbatim>\<open>isinstance(v, dict)\<close>\<close>

definition is_dict :: "heap \<Rightarrow> hval \<Rightarrow> bool" where
  "is_dict h v =
     (case v of
        HRef a \<Rightarrow> (case heap_lookup h a of Some (HDict kvs) \<Rightarrow> True | _ \<Rightarrow> False)
      | _ \<Rightarrow> False)"

text \<open>\<^verbatim>\<open>result[key] = v\<close>, for the dictionary at address \<open>r\<close>\<close>

definition dict_store :: "heap \<Rightarrow> addr \<Rightarrow> string \<Rightarrow> hval \<Rightarrow> heap" where
  "dict_store h r key v =
     (case heap_lookup h r of
        Some (HDict kvs) \<Rightarrow> h[r := HDict (AList.update key v kvs)]
      | _ \<Rightarrow> h)"

text \<open>
  \<open>deep_merge_h depth h base override\<close> is the call \<^verbatim>\<open>deep_merge(base, override)\<close> in the
  store \<open>h\<close>, with \<open>depth\<close> frames left before the interpreter raises \<^verbatim>\<open>RecursionError\<close>
  (a store can hold a dictionary that contains itself). It returns the new store and the
  address of \<^verbatim>\<open>result\<close>. \<open>merge_items\<close> is the loop: \<open>r\<close> is the address of \<^verbatim>\<open>result\<close>, and
  the list holds the items of \<^verbatim>\<open>override\<close> still to visit. The items are read once, at
  the start of the loop; the frame theorem below shows that the loop never writes to
  \<^verbatim>\<open>override\<close>, so the view Python iterates over shows the same items.

  The arguments are addresses of objects. A list as \<^verbatim>\<open>base\<close> is copied too, and the first
  pass of the loop, if there is one, raises \<^verbatim>\<open>TypeError\<close>; a list as \<^verbatim>\<open>override\<close> has no
  \<^verbatim>\<open>items\<close>.
\<close>

fun deep_merge_h :: "nat \<Rightarrow> heap \<Rightarrow> addr \<Rightarrow> addr \<Rightarrow> py_error + (heap \<times> addr)"
  and merge_items :: "nat \<Rightarrow> heap \<Rightarrow> addr \<Rightarrow> (string \<times> hval) list \<Rightarrow> py_error + (heap \<times> addr)"
where
  "deep_merge_h 0 h base override = Inl RecursionError"
| "deep_merge_h (Suc depth) h base override =
     (case (heap_lookup h base, heap_lookup h override) of
        (Some (HDict bkvs), Some (HDict okvs)) \<Rightarrow>
          merge_items depth (h @ [HDict bkvs]) (length h) okvs
      | (Some (HList xs), Some (HDict okvs)) \<Rightarrow>
          (if okvs = [] then Inr (h @ [HList xs], length h) else Inl TypeError)
      | (Some b, Some (HList ys)) \<Rightarrow> Inl AttributeError
      | _ \<Rightarrow> Inl Unmodelled)"
| "merge_items depth h r [] = Inr (h, r)"
| "merge_items depth h r ((key, value) # items) =
     (case heap_lookup h r of
        Some (HDict res) \<Rightarrow>
          (case (map_of res key, value) of
             (Some (HRef a), HRef a') \<Rightarrow>
               (if is_dict h (HRef a) \<and> is_dict h (HRef a') then
                  (case deep_merge_h depth h a a' of
                     Inl e \<Rightarrow> Inl e
                   | Inr (h', r') \<Rightarrow> merge_items depth (dict_store h' r key (HRef r')) r items)
                else merge_items depth (dict_store h r key value) r items)
           | _ \<Rightarrow> merge_items depth (dict_store h r key value) r items)
      | _ \<Rightarrow> Inl Unmodelled)"

text \<open>
  The JSON value that \<open>v\<close> stands for in the store \<open>h\<close>, read through at most \<open>depth\<close>
  levels of objects; \<open>None\<close> when the value is deeper than that or reaches an address
  that holds no object.
\<close>

fun those_items :: "(string \<times> json option) list \<Rightarrow> dict option" where
  "those_items [] = Some []"
| "those_items ((k, None) # kvs) = None"
| "those_items ((k, Some j) # kvs) = map_option (\<lambda>rest. (k, j) # rest) (those_items kvs)"

fun value_of :: "nat \<Rightarrow> heap \<Rightarrow> hval \<Rightarrow> json option" where
  "value_of depth h HNull = Some JNull"
| "value_of depth h (HBool b) = Some (JBool b)"
| "value_of depth h (HInt i) = Some (JInt i)"
| "value_of depth h (HFloat r) = Some (JFloat r)"
| "value_of depth h (HStr s) = Some (JStr s)"
| "value_of 0 h (HRef a) = None"
| "value_of (Suc depth) h (HRef a) =
     (case heap_lookup h a of
        None \<Rightarrow> None
      | Some (HList xs) \<Rightarrow> map_option JArr (those (map (value_of depth h) xs))
      | Some (HDict kvs) \<Rightarrow>
          map_option JObj (those_items (map (\<lambda>kv. (fst kv, value_of depth h (snd kv))) kvs)))"

text \<open>The items of a dictionary object, read as JSON.\<close>

definition read_items :: "nat \<Rightarrow> heap \<Rightarrow> (string \<times> hval) list \<Rightarrow> dict option" where
  "read_items depth h kvs = those_items (map (\<lambda>kv. (fst kv, value_of depth h (snd kv))) kvs)"

text \<open>Two stores of the same size that hold the same objects except at the addresses in \<open>X\<close>.\<close>

definition same_outside :: "addr set \<Rightarrow> heap \<Rightarrow> heap \<Rightarrow> bool" where
  "same_outside X h g \<longleftrightarrow> length g = length h \<and> (\<forall>x<length h. x \<notin> X \<longrightarrow> g ! x = h ! x)"

section \<open>Properties of the deep merge\<close>

lemma update_fresh: "k \<notin> fst ` set al \<Longrightarrow> AList.update k v al = al @ [(k, v)]"
  by (induction al) auto

lemma merge_spec_Nil: "merge_spec base [] = base"
  by (simp add: merge_spec.simps)

lemma merge_spec_Cons:
  "merge_spec base ((key, value) # items) =
     merge_spec
       (case (map_of base key, value) of
          (Some (JObj b), JObj ov) \<Rightarrow> AList.update key (JObj (merge_spec b ov)) base
        | _ \<Rightarrow> AList.update key value base)
       items"
  by (simp add: merge_spec.simps [of base "(key, value) # items"] merge_spec.simps [of _ items]
           split: option.split json.split)

lemma deep_merge_eq_merge_spec: "deep_merge base override = merge_spec base override"
proof (induction base override rule: deep_merge.induct)
  case (1 result)
  show ?case by (simp add: merge_spec_Nil)
next
  case (2 result key "value" items)
  then show ?case
    by (simp add: merge_spec_Cons split: option.splits json.splits)
qed

lemma deep_merge_step:
  "deep_merge result ((key, value) # items) =
     deep_merge (AList.update key (merged_value (map_of result key) value) result) items"
  by (simp add: merged_value_def split: option.split json.split)

lemma deep_merge_lookup:
  "distinct (map fst override) \<Longrightarrow>
   map_of (deep_merge base override) k =
     (case map_of override k of
        None \<Rightarrow> map_of base k
      | Some v \<Rightarrow> Some (merged_value (map_of base k) v))"
proof (induction override arbitrary: base)
  case Nil
  show ?case by simp
next
  case (Cons kv items)
  obtain key "value" where kv: "kv = (key, value)" by (cases kv)
  let ?r = "AList.update key (merged_value (map_of base key) value) base"
  from Cons.prems have dist: "distinct (map fst items)" and fresh: "key \<notin> fst ` set items"
    by (auto simp: kv)
  have step: "deep_merge base (kv # items) = deep_merge ?r items"
    unfolding kv by (rule deep_merge_step)
  have IH: "map_of (deep_merge ?r items) k =
      (case map_of items k of None \<Rightarrow> map_of ?r k
       | Some v \<Rightarrow> Some (merged_value (map_of ?r k) v))"
    by (rule Cons.IH [OF dist])
  show ?case
  proof (cases "k = key")
    case True
    with fresh have "map_of items k = None"
      by (simp add: map_of_eq_None_iff)
    with IH step True show ?thesis
      by (simp add: kv update_conv')
  next
    case False
    then have "map_of ?r k = map_of base k"
      by (simp add: update_conv')
    with IH step False show ?thesis
      by (simp add: kv split: option.split)
  qed
qed

lemma deep_merge_fresh:
  "distinct (map fst items) \<Longrightarrow> fst ` set acc \<inter> fst ` set items = {} \<Longrightarrow>
   deep_merge acc items = acc @ items"
proof (induction items arbitrary: acc)
  case Nil
  show ?case by simp
next
  case (Cons kv items)
  obtain k v where kv: "kv = (k, v)" by (cases kv)
  from Cons.prems have notin: "k \<notin> fst ` set acc" by (auto simp: kv)
  then have none: "map_of acc k = None" by (simp add: map_of_eq_None_iff)
  have "deep_merge acc (kv # items) = deep_merge (acc @ [(k, v)]) items"
    by (simp add: kv none update_fresh [OF notin])
  also have "\<dots> = (acc @ [(k, v)]) @ items"
    using Cons.prems by (intro Cons.IH) (auto simp: kv)
  finally show ?case by (simp add: kv)
qed

text \<open>
  C4. \<open>deep_merge\<close> is the algorithm of the specification: it equals \<open>merge_spec\<close>, the
  fold that starts from \<open>base\<close> and, for each key of \<open>override\<close> in order, merges
  recursively when the key is in the result and both values are mappings and stores the
  override value otherwise. For an \<open>override\<close> with distinct keys (a dictionary), the
  merged mapping holds at every key of \<open>override\<close> the recursive merge when both sides
  are mappings and the override value otherwise, and at every other key what \<open>base\<close>
  holds; in particular an array in \<open>override\<close> replaces whatever \<open>base\<close> has at that key.
\<close>

theorem deep_merge_is_spec_algorithm:
  "deep_merge base override = merge_spec base override \<and>
   (distinct (map fst override) \<longrightarrow>
      (\<forall>k. map_of (deep_merge base override) k =
            (case map_of override k of
               None \<Rightarrow> map_of base k
             | Some v \<Rightarrow>
                 (case (map_of base k, v) of
                    (Some (JObj b), JObj ov) \<Rightarrow> Some (JObj (deep_merge b ov))
                  | _ \<Rightarrow> Some v))) \<and>
      (\<forall>k xs. map_of override k = Some (JArr xs) \<longrightarrow>
               map_of (deep_merge base override) k = Some (JArr xs)))"
proof (intro conjI impI allI)
  show "deep_merge base override = merge_spec base override"
    by (rule deep_merge_eq_merge_spec)
next
  fix k
  assume "distinct (map fst override)"
  then show "map_of (deep_merge base override) k =
            (case map_of override k of
               None \<Rightarrow> map_of base k
             | Some v \<Rightarrow>
                 (case (map_of base k, v) of
                    (Some (JObj b), JObj ov) \<Rightarrow> Some (JObj (deep_merge b ov))
                  | _ \<Rightarrow> Some v))"
    by (simp add: deep_merge_lookup merged_value_def split: option.split json.split)
next
  fix k xs
  assume "distinct (map fst override)" and "map_of override k = Some (JArr xs)"
  then show "map_of (deep_merge base override) k = Some (JArr xs)"
    by (simp add: deep_merge_lookup merged_value_def split: option.split json.split)
qed

theorem deep_merge_is_spec_algorithm_witness:
  "distinct (map fst [(''a'', JObj [(''y'', JInt 2)]), (''l'', JArr [JInt 2])]) \<and>
   merge_spec [(''a'', JObj [(''x'', JInt 1)]), (''l'', JArr [JInt 1, JInt 3]), (''s'', JInt 0)]
              [(''a'', JObj [(''y'', JInt 2)]), (''l'', JArr [JInt 2])]
     = [(''a'', JObj [(''x'', JInt 1), (''y'', JInt 2)]), (''l'', JArr [JInt 2]), (''s'', JInt 0)] \<and>
   map_of (deep_merge [(''a'', JObj [(''x'', JInt 1)]), (''l'', JArr [JInt 1, JInt 3]), (''s'', JInt 0)]
                      [(''a'', JObj [(''y'', JInt 2)]), (''l'', JArr [JInt 2])]) ''l''
     = Some (JArr [JInt 2])"
proof -
  let ?B = "[(''a'', JObj [(''x'', JInt 1)]), (''l'', JArr [JInt 1, JInt 3]), (''s'', JInt 0)]"
  let ?O = "[(''a'', JObj [(''y'', JInt 2)]), (''l'', JArr [JInt 2])]"
  have d: "distinct (map fst ?O)" by simp
  note t = deep_merge_is_spec_algorithm [of ?B ?O]
  have "merge_spec ?B ?O = deep_merge ?B ?O"
    using t [THEN conjunct1] by simp
  then have m: "merge_spec ?B ?O =
      [(''a'', JObj [(''x'', JInt 1), (''y'', JInt 2)]), (''l'', JArr [JInt 2]), (''s'', JInt 0)]"
    by simp
  have "map_of ?O ''l'' = Some (JArr [JInt 2])" by simp
  then have a: "map_of (deep_merge ?B ?O) ''l'' = Some (JArr [JInt 2])"
    by (rule t [THEN conjunct2, THEN mp, OF d, THEN conjunct2, THEN spec, THEN spec, THEN mp])
  from d m a show ?thesis by (intro conjI)
qed

text \<open>
  C5. The empty mapping is a right and a left identity of the merge:
  \<open>merge(A, {}) = A\<close>, and \<open>merge({}, B) = B\<close> for every dictionary \<open>B\<close> (an association
  list with distinct keys), with the keys of \<open>B\<close> in their order.
\<close>

theorem deep_merge_identity:
  "deep_merge A [] = A \<and> (distinct (map fst B) \<longrightarrow> deep_merge [] B = B)"
  using deep_merge_fresh [of B "[]"] by simp

theorem deep_merge_identity_witness:
  "deep_merge [(''a'', JObj [(''x'', JInt 1)]), (''s'', JInt 0)] []
     = [(''a'', JObj [(''x'', JInt 1)]), (''s'', JInt 0)] \<and>
   distinct (map fst [(''b'', JObj [(''y'', JArr [])]), (''a'', JStr ''v'')]) \<and>
   deep_merge [] [(''b'', JObj [(''y'', JArr [])]), (''a'', JStr ''v'')]
     = [(''b'', JObj [(''y'', JArr [])]), (''a'', JStr ''v'')]"
  using deep_merge_identity
    [of "[(''a'', JObj [(''x'', JInt 1)]), (''s'', JInt 0)]"
        "[(''b'', JObj [(''y'', JArr [])]), (''a'', JStr ''v'')]"]
  by simp

section \<open>The zero-pricing rule\<close>

lemma strip_empty: "strip [] = []"
  by (simp add: strip_def lstrip_of.simps leading_def py_whitespace_def)

lemma empty_not_zero: "strip (py_str (JStr [])) \<notin> set [''0'', ''0.0'']"
  by (simp add: py_str_def strip_empty)

lemma is_free_by_pricing_no_pricing:
  "map_of kvs ''pricing'' = None \<Longrightarrow> is_free_by_pricing (JObj kvs) = Inr False"
  using empty_not_zero by (simp add: is_free_by_pricing_def dict_get_def)

lemma is_free_by_pricing_dict:
  "map_of kvs ''pricing'' = Some (JObj p) \<Longrightarrow>
   is_free_by_pricing (JObj kvs) =
     Inr (strip (py_str (dict_get p ''prompt'' (JStr ''''))) \<in> set [''0'', ''0.0''] \<and>
          strip (py_str (dict_get p ''completion'' (JStr ''''))) \<in> set [''0'', ''0.0''])"
  by (simp add: is_free_by_pricing_def dict_get_def)

lemma is_free_by_pricing_True_iff:
  "is_free_by_pricing m = Inr True \<longleftrightarrow>
     (\<exists>kvs p a b.
        m = JObj kvs \<and> map_of kvs ''pricing'' = Some (JObj p) \<and>
        map_of p ''prompt'' = Some a \<and> map_of p ''completion'' = Some b \<and>
        strip (py_str a) \<in> {''0'', ''0.0''} \<and> strip (py_str b) \<in> {''0'', ''0.0''})"
proof
  assume t: "is_free_by_pricing m = Inr True"
  then obtain kvs where m: "m = JObj kvs"
    by (cases m) (simp_all add: is_free_by_pricing_def)
  show "\<exists>kvs p a b.
        m = JObj kvs \<and> map_of kvs ''pricing'' = Some (JObj p) \<and>
        map_of p ''prompt'' = Some a \<and> map_of p ''completion'' = Some b \<and>
        strip (py_str a) \<in> {''0'', ''0.0''} \<and> strip (py_str b) \<in> {''0'', ''0.0''}"
  proof (cases "map_of kvs ''pricing''")
    case None
    with t m show ?thesis by (simp add: is_free_by_pricing_no_pricing)
  next
    case (Some pv)
    with t m obtain p where pv: "pv = JObj p"
      by (cases pv) (simp_all add: is_free_by_pricing_def dict_get_def)
    from t m Some pv
    have z: "strip (py_str (dict_get p ''prompt'' (JStr ''''))) \<in> set [''0'', ''0.0'']"
            "strip (py_str (dict_get p ''completion'' (JStr ''''))) \<in> set [''0'', ''0.0'']"
      by (simp_all add: is_free_by_pricing_dict)
    from z(1) obtain a where a: "map_of p ''prompt'' = Some a"
      using empty_not_zero by (cases "map_of p ''prompt''") (auto simp: dict_get_def)
    from z(2) obtain b where b: "map_of p ''completion'' = Some b"
      using empty_not_zero by (cases "map_of p ''completion''") (auto simp: dict_get_def)
    from z a b have "strip (py_str a) \<in> {''0'', ''0.0''}" "strip (py_str b) \<in> {''0'', ''0.0''}"
      by (simp_all add: dict_get_def)
    with m Some pv a b show ?thesis by blast
  qed
next
  assume "\<exists>kvs p a b.
        m = JObj kvs \<and> map_of kvs ''pricing'' = Some (JObj p) \<and>
        map_of p ''prompt'' = Some a \<and> map_of p ''completion'' = Some b \<and>
        strip (py_str a) \<in> {''0'', ''0.0''} \<and> strip (py_str b) \<in> {''0'', ''0.0''}"
  then show "is_free_by_pricing m = Inr True"
    by (auto simp: is_free_by_pricing_dict dict_get_def)
qed

text \<open>
  C8. A record satisfies the zero-pricing rule exactly when it has a \<open>pricing\<close> mapping
  whose \<open>prompt\<close> and \<open>completion\<close> are both present and, taken as strings and trimmed,
  equal \<open>0\<close> or \<open>0.0\<close>. A record without \<open>pricing\<close>, or whose \<open>pricing\<close> lacks \<open>prompt\<close>
  or \<open>completion\<close>, does not satisfy it.
\<close>

theorem zero_pricing_rule:
  "(is_free_by_pricing m = Inr True \<longleftrightarrow>
     (\<exists>kvs p a b.
        m = JObj kvs \<and> map_of kvs ''pricing'' = Some (JObj p) \<and>
        map_of p ''prompt'' = Some a \<and> map_of p ''completion'' = Some b \<and>
        strip (py_str a) \<in> {''0'', ''0.0''} \<and> strip (py_str b) \<in> {''0'', ''0.0''})) \<and>
   (map_of r ''pricing'' = None \<longrightarrow> is_free_by_pricing (JObj r) = Inr False) \<and>
   (map_of r ''pricing'' = Some (JObj q) \<and>
      (map_of q ''prompt'' = None \<or> map_of q ''completion'' = None) \<longrightarrow>
    is_free_by_pricing (JObj r) = Inr False)"
proof (intro conjI impI)
  show "is_free_by_pricing m = Inr True \<longleftrightarrow>
     (\<exists>kvs p a b.
        m = JObj kvs \<and> map_of kvs ''pricing'' = Some (JObj p) \<and>
        map_of p ''prompt'' = Some a \<and> map_of p ''completion'' = Some b \<and>
        strip (py_str a) \<in> {''0'', ''0.0''} \<and> strip (py_str b) \<in> {''0'', ''0.0''})"
    by (rule is_free_by_pricing_True_iff)
next
  assume "map_of r ''pricing'' = None"
  then show "is_free_by_pricing (JObj r) = Inr False"
    by (rule is_free_by_pricing_no_pricing)
next
  assume "map_of r ''pricing'' = Some (JObj q) \<and>
      (map_of q ''prompt'' = None \<or> map_of q ''completion'' = None)"
  then show "is_free_by_pricing (JObj r) = Inr False"
    using empty_not_zero by (auto simp: is_free_by_pricing_dict dict_get_def)
qed

lemma strip_examples:
  "strip '' 0'' = ''0''" "strip ''0.0'' = ''0.0''" "strip ''0'' = ''0''"
  by (simp_all add: strip_def lstrip_of.simps leading_def py_whitespace_def)

lemma py_str_examples:
  "py_str (JInt 0) = ''0''" "py_str (JFloat ''0.0'') = ''0.0''" "py_str (JInt (- 12)) = ''-12''"
  by code_simp+

theorem zero_pricing_rule_witness:
  "is_free_by_pricing
     (JObj [(''id'', JStr ''m''),
            (''pricing'', JObj [(''prompt'', JStr '' 0''), (''completion'', JStr ''0.0'')])])
     = Inr True \<and>
   is_free_by_pricing
     (JObj [(''id'', JStr ''n''),
            (''pricing'', JObj [(''prompt'', JInt 0), (''completion'', JFloat ''0.0'')])])
     = Inr True \<and>
   map_of [(''id'', JStr ''m'')] ''pricing'' = None \<and>
   is_free_by_pricing (JObj [(''id'', JStr ''m'')]) = Inr False \<and>
   map_of [(''pricing'', JObj [(''prompt'', JStr ''0'')])] ''pricing''
     = Some (JObj [(''prompt'', JStr ''0'')]) \<and>
   map_of [(''prompt'', JStr ''0'')] ''completion'' = None \<and>
   is_free_by_pricing (JObj [(''pricing'', JObj [(''prompt'', JStr ''0'')])]) = Inr False"
proof -
  have "is_free_by_pricing
     (JObj [(''id'', JStr ''m''),
            (''pricing'', JObj [(''prompt'', JStr '' 0''), (''completion'', JStr ''0.0'')])])
     = Inr True"
    by (rule zero_pricing_rule [THEN conjunct1, THEN iffD2])
       (simp add: py_str_def strip_examples)
  moreover have "is_free_by_pricing
     (JObj [(''id'', JStr ''n''),
            (''pricing'', JObj [(''prompt'', JInt 0), (''completion'', JFloat ''0.0'')])])
     = Inr True"
    by (rule zero_pricing_rule [THEN conjunct1, THEN iffD2])
       (simp add: py_str_examples strip_examples)
  moreover have "is_free_by_pricing (JObj [(''id'', JStr ''m'')]) = Inr False"
    by (rule zero_pricing_rule [THEN conjunct2, THEN conjunct1, THEN mp]) simp
  moreover have "is_free_by_pricing (JObj [(''pricing'', JObj [(''prompt'', JStr ''0'')])]) = Inr False"
    by (rule zero_pricing_rule [where q = "[(''prompt'', JStr ''0'')]",
          THEN conjunct2, THEN conjunct2, THEN mp]) simp
  ultimately show ?thesis by simp
qed

section \<open>Removal\<close>

lemma remove_provider_last_entry:
  assumes "map_of config ''provider'' = Some (JObj [(key, entry)])"
    and "lower (strip confirm) = ''y''"
  shows "remove_provider key (Parsed (JObj config)) confirm True =
           Inr (Removed (JObj (AList.delete ''provider'' config)))"
proof -
  have "AList.delete ''provider'' (AList.update ''provider'' (JObj []) config) =
        AList.delete ''provider'' config"
    by (induction config) (auto simp: AList.delete_eq)
  with assms show ?thesis
    by (simp add: remove_provider_def dict_get_def AList.delete_eq)
qed

lemma delete_drops_key: "key \<notin> fst ` set (AList.delete key al)"
  by (auto simp: AList.delete_eq)

text \<open>
  C9. When the key to remove is the only entry under \<open>provider\<close> and the operator
  answers yes, both removal scripts write a document that has no \<open>provider\<close> key; every
  other top-level key keeps its value.
\<close>

theorem removal_of_last_provider_drops_block:
  assumes "lower (strip confirm) = ''y''"
  shows "(map_of config ''provider'' = Some (JObj [(PROVIDER_KEY, entry)]) \<longrightarrow>
           (\<exists>config'. uninstall_main (Parsed (JObj config)) confirm True
                         = Inr (Removed (JObj config')) \<and>
                       ''provider'' \<notin> fst ` set config' \<and>
                       (\<forall>k. k \<noteq> ''provider'' \<longrightarrow> map_of config' k = map_of config k))) \<and>
         (map_of config ''provider'' = Some (JObj [(OLD_KEY, entry)]) \<longrightarrow>
           (\<exists>config'. remove_kilo_anonymous_main (Parsed (JObj config)) confirm True
                         = Inr (Removed (JObj config')) \<and>
                       ''provider'' \<notin> fst ` set config' \<and>
                       (\<forall>k. k \<noteq> ''provider'' \<longrightarrow> map_of config' k = map_of config k)))"
  using assms
  by (auto simp: uninstall_main_def remove_kilo_anonymous_main_def
        remove_provider_last_entry delete_drops_key simp del: fun_upd_apply)

lemma confirm_examples: "lower (strip '' Y '') = ''y''" "lower (strip ''y'') = ''y''"
  by code_simp+

theorem removal_of_last_provider_drops_block_witness:
  "lower (strip '' Y '') = ''y'' \<and>
   map_of [(''theme'', JStr ''dark''), (''provider'', JObj [(PROVIDER_KEY, JObj [])])] ''provider''
     = Some (JObj [(PROVIDER_KEY, JObj [])]) \<and>
   uninstall_main
     (Parsed (JObj [(''theme'', JStr ''dark''), (''provider'', JObj [(PROVIDER_KEY, JObj [])])]))
     '' Y '' True
     = Inr (Removed (JObj [(''theme'', JStr ''dark'')])) \<and>
   map_of [(''provider'', JObj [(OLD_KEY, JObj [])])] ''provider''
     = Some (JObj [(OLD_KEY, JObj [])]) \<and>
   (\<exists>config'. remove_kilo_anonymous_main
       (Parsed (JObj [(''provider'', JObj [(OLD_KEY, JObj [])])])) '' Y '' True
       = Inr (Removed (JObj config')) \<and> ''provider'' \<notin> fst ` set config')"
proof -
  have y: "lower (strip '' Y '') = ''y''" by (rule confirm_examples)
  have u: "uninstall_main
     (Parsed (JObj [(''theme'', JStr ''dark''), (''provider'', JObj [(PROVIDER_KEY, JObj [])])]))
     '' Y '' True
     = Inr (Removed (JObj [(''theme'', JStr ''dark'')]))"
    using y by (simp add: uninstall_main_def remove_provider_def dict_get_def AList.delete_eq)
  have "\<exists>config'. remove_kilo_anonymous_main
       (Parsed (JObj [(''provider'', JObj [(OLD_KEY, JObj [])])])) '' Y '' True
       = Inr (Removed (JObj config')) \<and> ''provider'' \<notin> fst ` set config' \<and>
       (\<forall>k. k \<noteq> ''provider'' \<longrightarrow>
            map_of config' k = map_of [(''provider'', JObj [(OLD_KEY, JObj [])])] k)"
    by (rule removal_of_last_provider_drops_block [OF y, THEN conjunct2, THEN mp]) simp
  then have r: "\<exists>config'. remove_kilo_anonymous_main
       (Parsed (JObj [(''provider'', JObj [(OLD_KEY, JObj [])])])) '' Y '' True
       = Inr (Removed (JObj config')) \<and> ''provider'' \<notin> fst ` set config'"
    by blast
  from y u r show ?thesis by simp
qed

section \<open>Dictionaries keyed by an id\<close>

lemma key_eq_refl [simp]: "key_eq a a"
  by (simp add: key_eq_def)

lemma key_eq_sym: "key_eq a b \<Longrightarrow> key_eq b a"
  unfolding key_eq_def by metis

lemma key_eq_trans: "key_eq a b \<Longrightarrow> key_eq b c \<Longrightarrow> key_eq a c"
  unfolding key_eq_def by metis

text \<open>A string is equal to no other key.\<close>

lemma key_eq_JStr [simp]:
  "key_eq k (JStr s) \<longleftrightarrow> k = JStr s"
  "key_eq (JStr s) k \<longleftrightarrow> k = JStr s"
  by (auto simp: key_eq_def)

lemma getitem_setitem:
  "getitem (setitem k v d) k' = (if key_eq k k' then Some v else getitem d k')"
proof (induction d)
  case Nil
  show ?case by simp
next
  case (Cons kv d)
  obtain k0 v0 where kv: "kv = (k0, v0)" by (cases kv)
  show ?case
  proof (cases "key_eq k0 k")
    case True
    then have "key_eq k0 k' \<longleftrightarrow> key_eq k k'"
      by (blast intro: key_eq_sym key_eq_trans)
    with True show ?thesis by (simp add: kv)
  next
    case False
    then have "\<not> (key_eq k k' \<and> key_eq k0 k')"
      by (blast intro: key_eq_sym key_eq_trans)
    with False Cons.IH show ?thesis by (auto simp: kv)
  qed
qed

lemma setitem_keys: "k' \<in> fst ` set (setitem k v d) \<Longrightarrow> k' = k \<or> k' \<in> fst ` set d"
proof (induction d)
  case Nil
  then show ?case by simp
next
  case (Cons kv d)
  obtain k0 v0 where kv: "kv = (k0, v0)" by (cases kv)
  show ?case
  proof (cases "key_eq k0 k")
    case True
    with Cons.prems show ?thesis by (simp add: kv)
  next
    case False
    with Cons.prems have "k' = k0 \<or> k' \<in> fst ` set (setitem k v d)"
      by (simp add: kv)
    with Cons.IH show ?thesis by (auto simp: kv)
  qed
qed

lemma getitem_key: "getitem d k = Some v \<Longrightarrow> \<exists>k'\<in>fst ` set d. key_eq k' k"
  by (induction d) (auto split: if_splits)

lemma getitem_JStr_key: "getitem d (JStr s) = Some v \<Longrightarrow> JStr s \<in> fst ` set d"
  using getitem_key [of d "JStr s" v] by simp

lemma two_keys_length:
  assumes "a \<in> fst ` set d" and "b \<in> fst ` set d" and "a \<noteq> b"
  shows "2 \<le> length d"
proof -
  from assms have "card {a, b} \<le> card (fst ` set d)"
    by (intro card_mono) auto
  also have "\<dots> \<le> card (set d)" by (rule card_image_le) simp
  also have "\<dots> \<le> length d" by (rule card_length)
  finally show ?thesis using assms(3) by simp
qed

section \<open>The free-model filter\<close>

lemma filter_raising_Inr:
  "filter_raising p xs = Inr ys \<Longrightarrow> ys = filter (\<lambda>x. p x = Inr True) xs"
proof (induction xs arbitrary: ys)
  case Nil
  then show ?case by simp
next
  case (Cons x xs)
  then show ?case
    by (auto split: sum.splits if_splits)
qed

lemma filter_raising_Inl:
  "filter_raising p xs = Inl e \<Longrightarrow> \<exists>x\<in>set xs. p x = Inl e"
proof (induction xs)
  case Nil
  then show ?case by simp
next
  case (Cons x xs)
  then show ?case
    by (auto split: sum.splits)
qed

lemma filter_raising_returns:
  "\<forall>x\<in>set xs. \<exists>b. p x = Inr b \<Longrightarrow>
   filter_raising p xs = Inr (filter (\<lambda>x. p x = Inr True) xs)"
  by (induction xs) auto

lemma add_models_Cons_Inr:
  assumes "add_models (m # ms) acc = Inr r"
  obtains kvs k where "m = JObj kvs" "map_of kvs ''id'' = Some k" "hashable k"
    "add_models ms (setitem k (dict_get kvs ''name'' k) acc) = Inr r"
  using assms by (auto split: json.splits option.splits if_splits)

lemma add_models_Inl: "add_models ms acc = Inl e \<Longrightarrow> e = KeyError \<or> e = TypeError"
proof (induction ms arbitrary: acc)
  case Nil
  then show ?case by simp
next
  case (Cons m ms)
  then show ?case
    by (auto split: json.splits option.splits if_splits)
qed

lemma add_models_ids:
  "add_models ms acc = Inr r \<Longrightarrow> JObj kvs \<in> set ms \<Longrightarrow>
   \<exists>k. map_of kvs ''id'' = Some k \<and> hashable k"
proof (induction ms arbitrary: acc)
  case Nil
  then show ?case by simp
next
  case (Cons m ms)
  from Cons.prems(1) obtain kvs0 k0 where m: "m = JObj kvs0"
    and k0: "map_of kvs0 ''id'' = Some k0" "hashable k0"
    and run: "add_models ms (setitem k0 (dict_get kvs0 ''name'' k0) acc) = Inr r"
    by (rule add_models_Cons_Inr)
  show ?case
  proof (cases "JObj kvs \<in> set ms")
    case True
    with run show ?thesis by (rule Cons.IH)
  next
    case False
    with Cons.prems(2) m have "kvs0 = kvs" by simp
    with k0 show ?thesis by blast
  qed
qed

lemma add_models_returns:
  "\<forall>m\<in>set ms. \<exists>kvs k. m = JObj kvs \<and> map_of kvs ''id'' = Some k \<and> hashable k \<Longrightarrow>
   \<exists>r. add_models ms acc = Inr r"
proof (induction ms arbitrary: acc)
  case Nil
  show ?case by simp
next
  case (Cons m ms)
  from Cons.prems obtain kvs k where m: "m = JObj kvs" "map_of kvs ''id'' = Some k" "hashable k"
    by auto
  from Cons.prems
  have "\<forall>m\<in>set ms. \<exists>kvs k. m = JObj kvs \<and> map_of kvs ''id'' = Some k \<and> hashable k"
    by simp
  from Cons.IH [OF this] m show ?case by simp
qed

text \<open>
  The loop leaves under a key the value of the last record with an equal id; when every
  record with an equal id gives the same value \<open>v\<close>, that is \<open>v\<close>.
\<close>

lemma add_models_value:
  assumes "add_models ms acc = Inr r"
    and "\<forall>kvs k'. JObj kvs \<in> set ms \<and> map_of kvs ''id'' = Some k' \<and> key_eq k' k \<longrightarrow>
               dict_get kvs ''name'' k' = v"
    and "getitem acc k = Some v \<or>
         (\<exists>kvs k'. JObj kvs \<in> set ms \<and> map_of kvs ''id'' = Some k' \<and> key_eq k' k)"
  shows "getitem r k = Some v"
  using assms
proof (induction ms arbitrary: acc)
  case Nil
  then show ?case by simp
next
  case (Cons m ms)
  from Cons.prems(1) obtain kvs j where m: "m = JObj kvs" and j: "map_of kvs ''id'' = Some j"
    and "hashable j"
    and run: "add_models ms (setitem j (dict_get kvs ''name'' j) acc) = Inr r"
    by (rule add_models_Cons_Inr)
  let ?acc = "setitem j (dict_get kvs ''name'' j) acc"
  from Cons.prems(2)
  have same: "\<forall>kvs k'. JObj kvs \<in> set ms \<and> map_of kvs ''id'' = Some k' \<and> key_eq k' k \<longrightarrow>
               dict_get kvs ''name'' k' = v"
    by simp
  have "getitem ?acc k = Some v \<or>
        (\<exists>kvs k'. JObj kvs \<in> set ms \<and> map_of kvs ''id'' = Some k' \<and> key_eq k' k)"
  proof (cases "key_eq j k")
    case True
    with Cons.prems(2) m j have "dict_get kvs ''name'' j = v" by simp
    with True show ?thesis by (simp add: getitem_setitem)
  next
    case False
    with Cons.prems(3) m j show ?thesis
      by (auto simp: getitem_setitem)
  qed
  with run same show ?case by (rule Cons.IH)
qed

lemma add_models_keeps_keys:
  "add_models ms acc = Inr r \<Longrightarrow> getitem acc k \<noteq> None \<Longrightarrow> getitem r k \<noteq> None"
proof (induction ms arbitrary: acc)
  case Nil
  then show ?case by simp
next
  case (Cons m ms)
  from Cons.prems(1) obtain kvs j where "m = JObj kvs" and "map_of kvs ''id'' = Some j"
    and "hashable j"
    and run: "add_models ms (setitem j (dict_get kvs ''name'' j) acc) = Inr r"
    by (rule add_models_Cons_Inr)
  from Cons.prems(2) have "getitem (setitem j (dict_get kvs ''name'' j) acc) k \<noteq> None"
    by (simp add: getitem_setitem)
  with run show ?case by (rule Cons.IH)
qed

lemma add_models_listed:
  "add_models ms acc = Inr r \<Longrightarrow> JObj kvs \<in> set ms \<Longrightarrow> map_of kvs ''id'' = Some k \<Longrightarrow>
   getitem r k \<noteq> None"
proof (induction ms arbitrary: acc)
  case Nil
  then show ?case by simp
next
  case (Cons m ms)
  from Cons.prems(1) obtain kvs0 j where m: "m = JObj kvs0" and j: "map_of kvs0 ''id'' = Some j"
    and "hashable j"
    and run: "add_models ms (setitem j (dict_get kvs0 ''name'' j) acc) = Inr r"
    by (rule add_models_Cons_Inr)
  show ?case
  proof (cases "JObj kvs \<in> set ms")
    case True
    from run True Cons.prems(3) show ?thesis by (rule Cons.IH)
  next
    case False
    with Cons.prems(2) m have "kvs0 = kvs" by simp
    with j Cons.prems(3)
    have "getitem (setitem j (dict_get kvs0 ''name'' j) acc) k \<noteq> None"
      by (simp add: getitem_setitem)
    with run show ?thesis by (rule add_models_keeps_keys)
  qed
qed

lemma add_manual_Cons:
  "add_manual ((mid, name) # manual) results =
     add_manual manual (setitem (JStr mid) (JStr name) results)"
  by (simp add: add_manual_def)

lemma add_manual_other:
  "k \<notin> JStr ` fst ` set manual \<Longrightarrow> getitem (add_manual manual results) k = getitem results k"
proof (induction manual arbitrary: results)
  case Nil
  show ?case by (simp add: add_manual_def)
next
  case (Cons a manual)
  obtain m0 n0 where a: "a = (m0, n0)" by (cases a)
  from Cons.prems a have "k \<noteq> JStr m0" and "k \<notin> JStr ` fst ` set manual" by auto
  then show ?case
    by (simp add: a add_manual_Cons Cons.IH getitem_setitem)
qed

lemma add_manual_wins:
  "distinct (map fst manual) \<Longrightarrow> (mid, name) \<in> set manual \<Longrightarrow>
   getitem (add_manual manual results) (JStr mid) = Some (JStr name)"
proof (induction manual arbitrary: results)
  case Nil
  then show ?case by simp
next
  case (Cons a manual)
  obtain m0 n0 where a: "a = (m0, n0)" by (cases a)
  show ?case
  proof (cases "(mid, name) = (m0, n0)")
    case True
    with Cons.prems(1) a have "JStr mid \<notin> JStr ` fst ` set manual" by auto
    then have "getitem (add_manual manual (setitem (JStr m0) (JStr n0) results)) (JStr mid)
               = getitem (setitem (JStr m0) (JStr n0) results) (JStr mid)"
      by (rule add_manual_other)
    with True show ?thesis
      by (simp add: a add_manual_Cons getitem_setitem)
  next
    case False
    with Cons.prems a have "distinct (map fst manual)" and "(mid, name) \<in> set manual"
      by auto
    then show ?thesis
      by (simp add: a add_manual_Cons Cons.IH)
  qed
qed

lemma add_manual_keeps_keys:
  "getitem results k \<noteq> None \<Longrightarrow> getitem (add_manual manual results) k \<noteq> None"
proof (induction manual arbitrary: results)
  case Nil
  then show ?case by (simp add: add_manual_def)
next
  case (Cons a manual)
  obtain m0 n0 where a: "a = (m0, n0)" by (cases a)
  from Cons.prems have "getitem (setitem (JStr m0) (JStr n0) results) k \<noteq> None"
    by (simp add: getitem_setitem)
  then show ?case
    by (simp add: a add_manual_Cons Cons.IH)
qed

lemma collect_free_models_Inr:
  assumes "collect_free_models manual models = Inr results"
  obtains r where
    "add_models (filter (\<lambda>m. is_free_by_suffix m = Inr True) models @
                 filter (\<lambda>m. is_free_by_pricing m = Inr True) models) [] = Inr r"
    "results = add_manual manual r"
proof -
  from assms obtain by_suffix where s: "filter_raising is_free_by_suffix models = Inr by_suffix"
    by (cases "filter_raising is_free_by_suffix models") (simp_all add: collect_free_models_def)
  from assms s obtain by_pricing
    where p: "filter_raising is_free_by_pricing models = Inr by_pricing"
    by (cases "filter_raising is_free_by_pricing models") (simp_all add: collect_free_models_def)
  from assms s p obtain r where r: "add_models (by_suffix @ by_pricing) [] = Inr r"
    by (cases "add_models (by_suffix @ by_pricing) []") (simp_all add: collect_free_models_def)
  from assms s p r have res: "results = add_manual manual r"
    by (simp add: collect_free_models_def)
  from s have "by_suffix = filter (\<lambda>m. is_free_by_suffix m = Inr True) models"
    by (rule filter_raising_Inr)
  moreover from p have "by_pricing = filter (\<lambda>m. is_free_by_pricing m = Inr True) models"
    by (rule filter_raising_Inr)
  ultimately show ?thesis using r res by (intro that) simp_all
qed

text \<open>The filter raises \<^verbatim>\<open>AttributeError\<close>, \<^verbatim>\<open>KeyError\<close> or \<^verbatim>\<open>TypeError\<close>, or it returns.\<close>

lemma collect_free_models_Inl:
  assumes "collect_free_models manual models = Inl e"
  shows "e = AttributeError \<or> e = KeyError \<or> e = TypeError"
proof (cases "filter_raising is_free_by_suffix models")
  case (Inl e1)
  with assms have "e1 = e" by (simp add: collect_free_models_def)
  with Inl obtain x where "is_free_by_suffix x = Inl e"
    using filter_raising_Inl by blast
  then show ?thesis
    by (auto simp: is_free_by_suffix_def split: json.splits)
next
  case s: (Inr by_suffix)
  show ?thesis
  proof (cases "filter_raising is_free_by_pricing models")
    case (Inl e1)
    with assms s have "e1 = e" by (simp add: collect_free_models_def)
    with Inl obtain x where "is_free_by_pricing x = Inl e"
      using filter_raising_Inl by blast
    then show ?thesis
      by (auto simp: is_free_by_pricing_def split: json.splits)
  next
    case p: (Inr by_pricing)
    from assms s p have "add_models (by_suffix @ by_pricing) [] = Inl e"
      by (simp add: collect_free_models_def split: sum.splits)
    then show ?thesis using add_models_Inl by blast
  qed
qed

text \<open>
  The filter returns on every catalogue of records that have a hashable id and, if any,
  a pricing mapping.
\<close>

lemma collect_free_models_returns:
  assumes "\<forall>m\<in>set models. \<exists>kvs k. m = JObj kvs \<and> map_of kvs ''id'' = Some k \<and> hashable k \<and>
             (map_of kvs ''pricing'' = None \<or> (\<exists>p. map_of kvs ''pricing'' = Some (JObj p)))"
  shows "\<exists>results. collect_free_models manual models = Inr results"
proof -
  have s: "\<forall>m\<in>set models. \<exists>b. is_free_by_suffix m = Inr b"
    using assms by (auto simp: is_free_by_suffix_def)
  have p: "\<forall>m\<in>set models. \<exists>b. is_free_by_pricing m = Inr b"
  proof
    fix m assume "m \<in> set models"
    with assms obtain kvs where m: "m = JObj kvs"
      and pr: "map_of kvs ''pricing'' = None \<or> (\<exists>p. map_of kvs ''pricing'' = Some (JObj p))"
      by blast
    from pr show "\<exists>b. is_free_by_pricing m = Inr b"
      by (auto simp: m is_free_by_pricing_def dict_get_def)
  qed
  let ?L = "filter (\<lambda>m. is_free_by_suffix m = Inr True) models @
            filter (\<lambda>m. is_free_by_pricing m = Inr True) models"
  have "\<forall>m\<in>set ?L. \<exists>kvs k. m = JObj kvs \<and> map_of kvs ''id'' = Some k \<and> hashable k"
    using assms by auto
  then obtain r where "add_models ?L [] = Inr r"
    using add_models_returns by blast
  then show ?thesis
    by (simp add: collect_free_models_def filter_raising_returns [OF s]
          filter_raising_returns [OF p])
qed

text \<open>Whatever the catalogue holds, the model map of the scripts has the two manual keys.\<close>

lemma collect_free_models_manual_keys:
  assumes "collect_free_models MANUAL_MODELS models = Inr results"
  shows "2 \<le> length results \<and> JStr ''giga-potato'' \<in> fst ` set results"
proof -
  from assms obtain r where res: "results = add_manual MANUAL_MODELS r"
    by (rule collect_free_models_Inr)
  have d: "distinct (map fst MANUAL_MODELS)" by (simp add: MANUAL_MODELS_def)
  have "getitem results (JStr ''giga-potato'') = Some (JStr ''Giga Potato (free)'')"
    unfolding res by (rule add_manual_wins [OF d]) (simp add: MANUAL_MODELS_def)
  then have a: "JStr ''giga-potato'' \<in> fst ` set results" by (rule getitem_JStr_key)
  have "getitem results (JStr ''giga-potato-thinking'') = Some (JStr ''Giga Potato Thinking (free)'')"
    unfolding res by (rule add_manual_wins [OF d]) (simp add: MANUAL_MODELS_def)
  then have b: "JStr ''giga-potato-thinking'' \<in> fst ` set results" by (rule getitem_JStr_key)
  from a b have "2 \<le> length results" by (rule two_keys_length) simp
  with a show ?thesis by simp
qed

text \<open>
  C3, as the code has it. Let the filter return \<open>results\<close> for a record list, and let a
  record of the list satisfy the suffix rule or the zero-pricing rule. Then the record has
  an \<open>id\<close> and \<open>results\<close> has an entry under that id, whatever hashable value the id is.
  The loop stores, for each selected record in turn, its \<open>name\<close> if it has one, an empty
  name included, and its id only if it has no \<open>name\<close>; the last record stored under a key
  stays, and the manual map is stored after the records. So when the id is not a key of
  the manual map and every selected record with an equal id stores the same value, which
  is so when no other selected record has that id, the entry is that value.
\<close>

theorem selected_record_listed_under_id:
  assumes "collect_free_models manual models = Inr results"
    and "JObj kvs \<in> set models"
    and "is_free_by_suffix (JObj kvs) = Inr True \<or> is_free_by_pricing (JObj kvs) = Inr True"
  shows "\<exists>k. map_of kvs ''id'' = Some k \<and> getitem results k \<noteq> None \<and>
           (k \<notin> JStr ` fst ` set manual \<and>
            (\<forall>kvs' k'. JObj kvs' \<in> set models \<and>
                (is_free_by_suffix (JObj kvs') = Inr True \<or>
                 is_free_by_pricing (JObj kvs') = Inr True) \<and>
                map_of kvs' ''id'' = Some k' \<and> key_eq k' k
                \<longrightarrow> dict_get kvs' ''name'' k' = dict_get kvs ''name'' k)
            \<longrightarrow> getitem results k =
                  Some (case map_of kvs ''name'' of None \<Rightarrow> k | Some n \<Rightarrow> n))"
proof -
  let ?L = "filter (\<lambda>m. is_free_by_suffix m = Inr True) models @
            filter (\<lambda>m. is_free_by_pricing m = Inr True) models"
  from assms(1) obtain r where r: "add_models ?L [] = Inr r"
    and res: "results = add_manual manual r"
    by (rule collect_free_models_Inr)
  from assms(2,3) have sel: "JObj kvs \<in> set ?L" by auto
  from r sel obtain k where k: "map_of kvs ''id'' = Some k"
    using add_models_ids by blast
  from r sel k have "getitem r k \<noteq> None" by (rule add_models_listed)
  then have listed: "getitem results k \<noteq> None"
    unfolding res by (rule add_manual_keeps_keys)
  have "getitem results k = Some (case map_of kvs ''name'' of None \<Rightarrow> k | Some n \<Rightarrow> n)"
    if fresh: "k \<notin> JStr ` fst ` set manual"
      and same: "\<forall>kvs' k'. JObj kvs' \<in> set models \<and>
                (is_free_by_suffix (JObj kvs') = Inr True \<or>
                 is_free_by_pricing (JObj kvs') = Inr True) \<and>
                map_of kvs' ''id'' = Some k' \<and> key_eq k' k
                \<longrightarrow> dict_get kvs' ''name'' k' = dict_get kvs ''name'' k"
  proof -
    have "\<forall>kvs' k'. JObj kvs' \<in> set ?L \<and> map_of kvs' ''id'' = Some k' \<and> key_eq k' k \<longrightarrow>
            dict_get kvs' ''name'' k' = dict_get kvs ''name'' k"
      using same by auto
    moreover have "getitem [] k = Some (dict_get kvs ''name'' k) \<or>
        (\<exists>kvs' k'. JObj kvs' \<in> set ?L \<and> map_of kvs' ''id'' = Some k' \<and> key_eq k' k)"
      using sel k key_eq_refl by blast
    ultimately have "getitem r k = Some (dict_get kvs ''name'' k)"
      by (rule add_models_value [OF r])
    with fresh show ?thesis
      by (simp add: res add_manual_other dict_get_def)
  qed
  with k listed show ?thesis by blast
qed

lemma suffix_example:
  "is_free_by_suffix (JObj [(''id'', JStr ''a:free''), (''name'', JStr ''A'')]) = Inr True"
  by (simp add: is_free_by_suffix_def dict_get_def py_str_def endswith_def)

lemma pricing_example:
  "is_free_by_pricing
     (JObj [(''id'', JNull),
            (''pricing'', JObj [(''prompt'', JStr ''0''), (''completion'', JInt 0)])]) = Inr True"
  "is_free_by_suffix
     (JObj [(''id'', JNull),
            (''pricing'', JObj [(''prompt'', JStr ''0''), (''completion'', JInt 0)])]) = Inr False"
  by code_simp+

theorem selected_record_listed_under_id_witness:
  "JObj [(''id'', JStr ''a:free''), (''name'', JStr ''A'')]
     \<in> set [JObj [(''id'', JStr ''a:free''), (''name'', JStr ''A'')],
            JObj [(''id'', JNull),
                  (''pricing'', JObj [(''prompt'', JStr ''0''), (''completion'', JInt 0)])]] \<and>
   is_free_by_suffix (JObj [(''id'', JStr ''a:free''), (''name'', JStr ''A'')]) = Inr True \<and>
   JStr ''a:free'' \<notin> JStr ` fst ` set MANUAL_MODELS \<and>
   is_free_by_pricing
     (JObj [(''id'', JNull),
            (''pricing'', JObj [(''prompt'', JStr ''0''), (''completion'', JInt 0)])]) = Inr True \<and>
   JNull \<notin> JStr ` fst ` set MANUAL_MODELS \<and>
   (\<exists>results.
      collect_free_models MANUAL_MODELS
        [JObj [(''id'', JStr ''a:free''), (''name'', JStr ''A'')],
         JObj [(''id'', JNull),
               (''pricing'', JObj [(''prompt'', JStr ''0''), (''completion'', JInt 0)])]]
        = Inr results \<and>
      getitem results (JStr ''a:free'') = Some (JStr ''A'') \<and>
      getitem results JNull = Some JNull)"
proof -
  let ?a = "[(''id'', JStr ''a:free''), (''name'', JStr ''A'')]"
  let ?n = "[(''id'', JNull),
             (''pricing'', JObj [(''prompt'', JStr ''0''), (''completion'', JInt 0)])]"
  have "\<exists>results. collect_free_models MANUAL_MODELS [JObj ?a, JObj ?n] = Inr results"
    by (rule collect_free_models_returns) simp
  then obtain results where c: "collect_free_models MANUAL_MODELS [JObj ?a, JObj ?n] = Inr results" ..
  have ma: "JObj ?a \<in> set [JObj ?a, JObj ?n]" and mn: "JObj ?n \<in> set [JObj ?a, JObj ?n]"
    by simp_all
  have sa: "is_free_by_suffix (JObj ?a) = Inr True" by (rule suffix_example)
  have sn: "is_free_by_pricing (JObj ?n) = Inr True" by (rule pricing_example)
  have fa: "JStr ''a:free'' \<notin> JStr ` fst ` set MANUAL_MODELS"
    and fn: "JNull \<notin> JStr ` fst ` set MANUAL_MODELS"
    by (auto simp: MANUAL_MODELS_def)
  from selected_record_listed_under_id [OF c ma disjI1 [OF sa]]
  obtain k where k: "map_of ?a ''id'' = Some k"
    and v: "k \<notin> JStr ` fst ` set MANUAL_MODELS \<and>
            (\<forall>kvs' k'. JObj kvs' \<in> set [JObj ?a, JObj ?n] \<and>
                (is_free_by_suffix (JObj kvs') = Inr True \<or>
                 is_free_by_pricing (JObj kvs') = Inr True) \<and>
                map_of kvs' ''id'' = Some k' \<and> key_eq k' k
                \<longrightarrow> dict_get kvs' ''name'' k' = dict_get ?a ''name'' k)
            \<longrightarrow> getitem results k = Some (case map_of ?a ''name'' of None \<Rightarrow> k | Some n \<Rightarrow> n)"
    by blast
  from k have ka: "k = JStr ''a:free''" by simp
  have "\<forall>kvs' k'. JObj kvs' \<in> set [JObj ?a, JObj ?n] \<and>
            (is_free_by_suffix (JObj kvs') = Inr True \<or>
             is_free_by_pricing (JObj kvs') = Inr True) \<and>
            map_of kvs' ''id'' = Some k' \<and> key_eq k' (JStr ''a:free'')
            \<longrightarrow> dict_get kvs' ''name'' k' = dict_get ?a ''name'' (JStr ''a:free'')"
    by auto
  with v fa ka have ra: "getitem results (JStr ''a:free'') = Some (JStr ''A'')" by simp
  from selected_record_listed_under_id [OF c mn disjI2 [OF sn]]
  obtain j where j: "map_of ?n ''id'' = Some j"
    and w: "j \<notin> JStr ` fst ` set MANUAL_MODELS \<and>
            (\<forall>kvs' k'. JObj kvs' \<in> set [JObj ?a, JObj ?n] \<and>
                (is_free_by_suffix (JObj kvs') = Inr True \<or>
                 is_free_by_pricing (JObj kvs') = Inr True) \<and>
                map_of kvs' ''id'' = Some k' \<and> key_eq k' j
                \<longrightarrow> dict_get kvs' ''name'' k' = dict_get ?n ''name'' j)
            \<longrightarrow> getitem results j = Some (case map_of ?n ''name'' of None \<Rightarrow> j | Some n \<Rightarrow> n)"
    by blast
  from j have jn: "j = JNull" by simp
  have "\<forall>kvs' k'. JObj kvs' \<in> set [JObj ?a, JObj ?n] \<and>
            (is_free_by_suffix (JObj kvs') = Inr True \<or>
             is_free_by_pricing (JObj kvs') = Inr True) \<and>
            map_of kvs' ''id'' = Some k' \<and> key_eq k' JNull
            \<longrightarrow> dict_get kvs' ''name'' k' = dict_get ?n ''name'' JNull"
    by auto
  with w fn jn have rn: "getitem results JNull = Some JNull" by simp
  from c ma sa fa sn fn ra rn show ?thesis by blast
qed

text \<open>
  The claim as the specification states it fails on a record with an empty name: the
  record ends in \<open>:free\<close>, and the filtered map holds the empty name, not the id.
\<close>

theorem empty_name_is_kept_counterexample:
  "is_free_by_suffix (JObj [(''id'', JStr ''x:free''), (''name'', JStr '''')]) = Inr True \<and>
   collect_free_models MANUAL_MODELS [JObj [(''id'', JStr ''x:free''), (''name'', JStr '''')]]
     = Inr [(JStr ''x:free'', JStr ''''),
            (JStr ''giga-potato'', JStr ''Giga Potato (free)''),
            (JStr ''giga-potato-thinking'', JStr ''Giga Potato Thinking (free)'')] \<and>
   getitem [(JStr ''x:free'', JStr ''''),
            (JStr ''giga-potato'', JStr ''Giga Potato (free)''),
            (JStr ''giga-potato-thinking'', JStr ''Giga Potato Thinking (free)'')]
           (JStr ''x:free'')
     \<noteq> Some (JStr ''x:free'')"
  by code_simp

text \<open>
  C7. Whenever the filter returns, every id of the manual map is in the result with the
  display name the manual map gives it, whatever the catalogue holds for that id and
  also when the catalogue does not have the id.
\<close>

theorem manual_models_always_win:
  assumes "collect_free_models manual models = Inr results"
    and "distinct (map fst manual)"
    and "(mid, name) \<in> set manual"
  shows "getitem results (JStr mid) = Some (JStr name)"
proof -
  from assms(1) obtain r where "results = add_manual manual r"
    by (rule collect_free_models_Inr)
  with assms(2,3) show ?thesis
    by (simp add: add_manual_wins)
qed

theorem manual_models_always_win_witness:
  "distinct (map fst MANUAL_MODELS) \<and>
   (''giga-potato'', ''Giga Potato (free)'') \<in> set MANUAL_MODELS \<and>
   (''giga-potato-thinking'', ''Giga Potato Thinking (free)'') \<in> set MANUAL_MODELS \<and>
   (\<exists>results.
      collect_free_models MANUAL_MODELS
        [JObj [(''id'', JStr ''giga-potato''), (''name'', JStr ''Other name''),
               (''pricing'', JObj [(''prompt'', JStr ''0''), (''completion'', JStr ''0'')])]]
        = Inr results \<and>
      getitem results (JStr ''giga-potato'') = Some (JStr ''Giga Potato (free)'') \<and>
      getitem results (JStr ''giga-potato-thinking'') = Some (JStr ''Giga Potato Thinking (free)''))"
proof -
  let ?c = "[JObj [(''id'', JStr ''giga-potato''), (''name'', JStr ''Other name''),
               (''pricing'', JObj [(''prompt'', JStr ''0''), (''completion'', JStr ''0'')])]]"
  have "\<exists>results. collect_free_models MANUAL_MODELS ?c = Inr results"
    by (rule collect_free_models_returns) simp
  then obtain results where c: "collect_free_models MANUAL_MODELS ?c = Inr results" ..
  have d: "distinct (map fst MANUAL_MODELS)" by (simp add: MANUAL_MODELS_def)
  have m1: "(''giga-potato'', ''Giga Potato (free)'') \<in> set MANUAL_MODELS"
    and m2: "(''giga-potato-thinking'', ''Giga Potato Thinking (free)'') \<in> set MANUAL_MODELS"
    by (simp_all add: MANUAL_MODELS_def)
  from manual_models_always_win [OF c d m1] manual_models_always_win [OF c d m2] c d m1 m2
  show ?thesis by blast
qed

section \<open>The install run\<close>

lemma deep_merge_single_lookup:
  "map_of (deep_merge existing [(key, value)]) k =
     (if k = key then Some (merged_value (map_of existing key) value) else map_of existing k)"
  using deep_merge_lookup [of "[(key, value)]" existing k] by simp

lemma ensure_schema_Inr:
  assumes "ensure_schema loaded = Inr existing"
  shows "\<exists>kvs. loaded = JObj kvs \<and>
           (\<forall>k. k \<noteq> ''$schema'' \<longrightarrow> map_of existing k = map_of kvs k) \<and>
           (map_of kvs ''$schema'' \<noteq> None \<longrightarrow> existing = kvs) \<and>
           map_of existing ''$schema'' =
             Some (case map_of kvs ''$schema'' of
                     None \<Rightarrow> JStr ''https://opencode.ai/config.json''
                   | Some v \<Rightarrow> v)"
proof -
  from assms obtain kvs where l: "loaded = JObj kvs"
    by (cases loaded) (simp_all add: ensure_schema_def split: if_splits)
  from assms l have e: "existing =
      (if map_of kvs ''$schema'' = None
       then AList.update ''$schema'' (JStr ''https://opencode.ai/config.json'') kvs
       else kvs)"
    by (simp add: ensure_schema_def)
  have "\<forall>k. k \<noteq> ''$schema'' \<longrightarrow> map_of existing k = map_of kvs k"
    using e by (simp add: update_conv')
  moreover have "map_of kvs ''$schema'' \<noteq> None \<longrightarrow> existing = kvs"
    using e by simp
  moreover have "map_of existing ''$schema'' =
             Some (case map_of kvs ''$schema'' of
                     None \<Rightarrow> JStr ''https://opencode.ai/config.json''
                   | Some v \<Rightarrow> v)"
    using e by (auto simp: update_conv')
  ultimately show ?thesis using l by blast
qed

lemma install_config_Inr:
  assumes "install_config loaded entries = Inr written"
  obtains existing P updated where
    "ensure_schema loaded = Inr existing"
    "dict_get existing ''provider'' (JObj []) = JObj P"
    "written = JObj (deep_merge existing [(''provider'', JObj [(PROVIDER_KEY, JObj updated)])])"
proof -
  from assms obtain existing where e: "ensure_schema loaded = Inr existing"
    by (cases "ensure_schema loaded") (simp_all add: install_config_def)
  from assms e obtain entry where en: "existing_provider existing = Inr entry"
    by (cases "existing_provider existing") (simp_all add: install_config_def)
  from assms e en obtain updated where up: "updated_provider entry entries = Inr updated"
    by (cases "updated_provider entry entries") (simp_all add: install_config_def)
  from en obtain P where P: "dict_get existing ''provider'' (JObj []) = JObj P"
    by (cases "dict_get existing ''provider'' (JObj [])") (simp_all add: existing_provider_def)
  from assms e en up
  have "written = JObj (deep_merge existing [(''provider'', JObj [(PROVIDER_KEY, JObj updated)])])"
    by (simp add: install_config_def)
  with e P show ?thesis by (rule that)
qed

lemma install_config_top_level:
  assumes "install_config loaded entries = Inr written"
    and "k \<noteq> ''provider''"
    and "k \<noteq> ''$schema'' \<or> get_path loaded [''$schema''] \<noteq> None"
  shows "get_path written (k # ks) = get_path loaded (k # ks)"
proof -
  from assms(1) obtain existing P updated where
    e: "ensure_schema loaded = Inr existing" and
    w: "written = JObj (deep_merge existing [(''provider'', JObj [(PROVIDER_KEY, JObj updated)])])"
    by (rule install_config_Inr)
  from ensure_schema_Inr [OF e] obtain kvs where l: "loaded = JObj kvs"
    and other: "\<forall>k. k \<noteq> ''$schema'' \<longrightarrow> map_of existing k = map_of kvs k"
    and same: "map_of kvs ''$schema'' \<noteq> None \<longrightarrow> existing = kvs"
    and s: "map_of existing ''$schema'' =
           Some (case map_of kvs ''$schema'' of
                   None \<Rightarrow> JStr ''https://opencode.ai/config.json''
                 | Some v \<Rightarrow> v)"
    by blast
  have "map_of existing k = map_of kvs k"
  proof (cases "k = ''$schema''")
    case True
    with assms(3) l have "map_of kvs ''$schema'' \<noteq> None"
      by (auto split: option.splits)
    then show ?thesis using same by simp
  next
    case False
    then show ?thesis using other by simp
  qed
  with assms(2) show ?thesis
    by (simp add: w l deep_merge_single_lookup del: deep_merge.simps)
qed

lemma install_config_other_provider:
  assumes "install_config loaded entries = Inr written"
    and "k \<noteq> PROVIDER_KEY"
  shows "get_path written (''provider'' # k # ks) = get_path loaded (''provider'' # k # ks)"
proof -
  from assms(1) obtain existing P updated where
    e: "ensure_schema loaded = Inr existing" and
    P: "dict_get existing ''provider'' (JObj []) = JObj P" and
    w: "written = JObj (deep_merge existing [(''provider'', JObj [(PROVIDER_KEY, JObj updated)])])"
    by (rule install_config_Inr)
  from ensure_schema_Inr [OF e] obtain kvs where l: "loaded = JObj kvs"
    and other: "\<forall>k. k \<noteq> ''$schema'' \<longrightarrow> map_of existing k = map_of kvs k"
    and same: "map_of kvs ''$schema'' \<noteq> None \<longrightarrow> existing = kvs"
    and s: "map_of existing ''$schema'' =
           Some (case map_of kvs ''$schema'' of
                   None \<Rightarrow> JStr ''https://opencode.ai/config.json''
                 | Some v \<Rightarrow> v)"
    by blast
  have pk: "map_of existing ''provider'' = map_of kvs ''provider''"
    using other by simp
  show ?thesis
  proof (cases "map_of kvs ''provider''")
    case None
    with pk assms(2) show ?thesis
      by (simp add: w l deep_merge_single_lookup merged_value_def del: deep_merge.simps)
  next
    case (Some pv)
    with P pk have pv: "pv = JObj P" by (simp add: dict_get_def)
    from Some pk pv assms(2) show ?thesis
      by (simp add: w l deep_merge_single_lookup merged_value_def del: deep_merge.simps)
  qed
qed

lemma install_config_frame:
  assumes "install_config loaded entries = Inr written"
    and "\<not> prefix p owned_path" and "\<not> prefix owned_path p"
    and "hd p \<noteq> ''$schema'' \<or> get_path loaded [''$schema''] \<noteq> None"
  shows "get_path written p = get_path loaded p"
proof (cases p)
  case Nil
  with assms(2) show ?thesis by simp
next
  case (Cons k ks)
  show ?thesis
  proof (cases "k = ''provider''")
    case False
    with assms(1,4) Cons show ?thesis
      by (simp add: install_config_top_level)
  next
    case True
    show ?thesis
    proof (cases ks)
      case Nil
      with assms(2) Cons True show ?thesis by (simp add: owned_path_def)
    next
      case (Cons k2 ks2)
      with assms(3) \<open>p = k # ks\<close> True have "k2 \<noteq> PROVIDER_KEY"
        by (auto simp: owned_path_def)
      with assms(1) Cons \<open>p = k # ks\<close> True show ?thesis
        by (simp add: install_config_other_provider)
    qed
  qed
qed

lemma install_config_schema:
  assumes "install_config loaded entries = Inr written"
  shows "\<exists>kvs kvs'. loaded = JObj kvs \<and> written = JObj kvs' \<and>
           map_of kvs' ''$schema'' =
             Some (case map_of kvs ''$schema'' of
                     None \<Rightarrow> JStr ''https://opencode.ai/config.json''
                   | Some v \<Rightarrow> v)"
proof -
  from assms obtain existing P updated where
    e: "ensure_schema loaded = Inr existing" and
    w: "written = JObj (deep_merge existing [(''provider'', JObj [(PROVIDER_KEY, JObj updated)])])"
    by (rule install_config_Inr)
  from ensure_schema_Inr [OF e] obtain kvs where l: "loaded = JObj kvs"
    and other: "\<forall>k. k \<noteq> ''$schema'' \<longrightarrow> map_of existing k = map_of kvs k"
    and same: "map_of kvs ''$schema'' \<noteq> None \<longrightarrow> existing = kvs"
    and s: "map_of existing ''$schema'' =
           Some (case map_of kvs ''$schema'' of
                   None \<Rightarrow> JStr ''https://opencode.ai/config.json''
                 | Some v \<Rightarrow> v)"
    by blast
  have "map_of (deep_merge existing [(''provider'', JObj [(PROVIDER_KEY, JObj updated)])]) ''$schema''
        = map_of existing ''$schema''"
    by (simp add: deep_merge_single_lookup del: deep_merge.simps)
  with l w s show ?thesis by simp
qed

text \<open>The model entries: \<^verbatim>\<open>sorted\<close> keeps the items, and the entries have no other keys.\<close>

lemma sorted_items_set: "sorted_items d = Inr items \<Longrightarrow> set items = set d"
  by (auto simp: sorted_items_def split: if_splits)

lemma is_str_not_number: "is_str k \<Longrightarrow> \<not> is_integer k \<and> \<not> is_number k"
  by (cases k) simp_all

text \<open>
  With two items or more and a string among the keys, \<^verbatim>\<open>sorted\<close> returns only when
  every key is a string.
\<close>

lemma sorted_items_mixed:
  assumes "sorted_items d = Inr items" and "2 \<le> length d"
    and "kv \<in> set d" and "is_str (fst kv)"
  shows "list_all (\<lambda>kv. is_str (fst kv)) d"
proof (rule ccontr)
  assume n: "\<not> list_all (\<lambda>kv. is_str (fst kv)) d"
  with assms(1,2) have "list_all (\<lambda>kv. is_integer (fst kv)) d"
    by (simp add: sorted_items_def split: if_splits)
  with assms(3) have "is_integer (fst kv)" by (simp add: list_all_iff)
  with assms(4) show False by (simp add: is_str_not_number)
qed

lemma sorted_items_Inl:
  assumes "sorted_items d = Inl e" and "kv \<in> set d" and "is_str (fst kv)"
  shows "e = TypeError"
proof -
  from assms(3) have "\<not> is_number (fst kv)" by (simp add: is_str_not_number)
  with assms(2) have "\<not> list_all (\<lambda>kv. is_number (fst kv)) d"
    by (auto simp: list_all_iff)
  with assms(1) show ?thesis
    by (simp add: sorted_items_def split: if_splits)
qed

lemma fold_setitem_keys:
  "k \<in> fst ` set (fold (\<lambda>(mid, name) entries. setitem mid (f name) entries) items acc) \<Longrightarrow>
   k \<in> fst ` set items \<or> k \<in> fst ` set acc"
proof (induction items arbitrary: acc)
  case Nil
  then show ?case by simp
next
  case (Cons kv items)
  obtain mid name where kv: "kv = (mid, name)" by (cases kv)
  from Cons.prems
  have "k \<in> fst ` set (fold (\<lambda>(mid, name) entries. setitem mid (f name) entries) items
                            (setitem mid (f name) acc))"
    by (simp add: kv)
  then have "k \<in> fst ` set items \<or> k \<in> fst ` set (setitem mid (f name) acc)"
    by (rule Cons.IH)
  then show ?case
    using setitem_keys [of k mid "f name" acc] by (auto simp: kv)
qed

lemma build_model_entries_keys:
  assumes "build_model_entries d = Inr entries" and "k \<in> fst ` set entries"
  shows "k \<in> fst ` set d"
proof -
  from assms(1) obtain items where s: "sorted_items d = Inr items"
    and e: "entries = fold (\<lambda>(mid, name) entries. setitem mid (JObj [(''name'', name)]) entries)
                          items []"
    by (auto simp: build_model_entries_def split: sum.splits)
  from assms(2) have "k \<in> fst ` set items \<or> k \<in> fst ` set []"
    using fold_setitem_keys [where f = "\<lambda>name. JObj [(''name'', name)]" and acc = "[]"]
    by (simp add: e)
  with sorted_items_set [OF s] show ?thesis by simp
qed

lemma string_keys_Some:
  "\<forall>k\<in>fst ` set d. is_str k \<Longrightarrow> \<exists>model_entries. string_keys d = Some model_entries"
proof (induction d)
  case Nil
  show ?case by simp
next
  case (Cons kv d)
  obtain k v where kv: "kv = (k, v)" by (cases kv)
  from Cons.prems kv obtain s where k: "k = JStr s" by (cases k) simp_all
  from Cons.prems have "\<forall>k\<in>fst ` set d. is_str k" by simp
  from Cons.IH [OF this] show ?case by (auto simp: kv k)
qed

lemma string_keys_strings:
  "string_keys d = Some model_entries \<Longrightarrow> k \<in> fst ` set d \<Longrightarrow> is_str k"
proof (induction d arbitrary: model_entries rule: string_keys.induct)
  case 1
  then show ?case by simp
next
  case (2 s v kvs)
  then show ?case by auto
qed simp_all

text \<open>A model map with string keys only gives model entries with string keys only.\<close>

lemma build_model_entries_strings:
  assumes "list_all (\<lambda>kv. is_str (fst kv)) d"
  shows "\<exists>entries model_entries.
           build_model_entries d = Inr entries \<and> string_keys entries = Some model_entries"
proof -
  from assms have "\<exists>items. sorted_items d = Inr items"
    by (simp add: sorted_items_def)
  then obtain entries where b: "build_model_entries d = Inr entries"
    by (auto simp: build_model_entries_def)
  have "\<forall>k\<in>fst ` set entries. is_str k"
  proof
    fix k assume "k \<in> fst ` set entries"
    with b have "k \<in> fst ` set d" by (rule build_model_entries_keys)
    with assms show "is_str k" by (auto simp: list_all_iff)
  qed
  then obtain model_entries where "string_keys entries = Some model_entries"
    using string_keys_Some by blast
  with b show ?thesis by blast
qed

lemma main_Persisted:
  assumes "load_existing file = Inr loaded"
    and "main dry_run offline fetched file writable = Inr (Persisted written)"
  obtains model_entries where "install_config loaded model_entries = Inr written"
proof -
  from assms have "\<exists>model_entries. install_config loaded model_entries = Inr written"
    by (auto simp: main_def split: sum.splits if_splits option.splits)
  then show ?thesis using that by blast
qed

text \<open>A run that is not a dry run writes the file whenever the document has the expected shape.\<close>

lemma install_config_returns:
  assumes "map_of kvs ''provider'' = None \<or>
           (\<exists>P. map_of kvs ''provider'' = Some (JObj P) \<and>
                (map_of P PROVIDER_KEY = None \<or> (\<exists>e. map_of P PROVIDER_KEY = Some (JObj e))))"
  shows "\<exists>written. install_config (JObj kvs) entries = Inr written"
proof -
  obtain existing where e: "ensure_schema (JObj kvs) = Inr existing"
    by (simp add: ensure_schema_def)
  from ensure_schema_Inr [OF e] obtain kvs0 where l: "JObj kvs = JObj kvs0"
    and other: "\<forall>k. k \<noteq> ''$schema'' \<longrightarrow> map_of existing k = map_of kvs0 k"
    by blast
  have "map_of existing ''provider'' = map_of kvs0 ''provider''"
    using other by simp
  with l have pk: "map_of existing ''provider'' = map_of kvs ''provider''"
    by simp
  from assms pk have "\<exists>e. existing_provider existing = Inr (JObj e)"
    by (auto simp: existing_provider_def dict_get_def)
  then obtain en where en: "existing_provider existing = Inr (JObj en)" ..
  show ?thesis
    by (simp add: install_config_def e en updated_provider_def)
qed

lemma main_persists:
  assumes "resolve_models offline fetched = Inr id_to_name"
    and "list_all (\<lambda>kv. is_str (fst kv)) id_to_name"
    and "load_existing file = Inr (JObj kvs)"
    and "map_of kvs ''provider'' = None \<or>
           (\<exists>P. map_of kvs ''provider'' = Some (JObj P) \<and>
                (map_of P PROVIDER_KEY = None \<or> (\<exists>e. map_of P PROVIDER_KEY = Some (JObj e))))"
  shows "\<exists>written. main False offline fetched file True = Inr (Persisted written)"
proof -
  from assms(2) obtain entries model_entries
    where b: "build_model_entries id_to_name = Inr entries"
      and k: "string_keys entries = Some model_entries"
    using build_model_entries_strings by blast
  have n: "JNull \<notin> fst ` set entries"
  proof
    assume "JNull \<in> fst ` set entries"
    with k have "is_str JNull" by (rule string_keys_strings)
    then show False by simp
  qed
  from assms(4) obtain written
    where "install_config (JObj kvs) model_entries = Inr written"
    using install_config_returns by blast
  with assms(1,3) b k n show ?thesis by (simp add: main_def)
qed

lemma resolve_models_offline:
  "resolve_models True fetched = Inr (map (\<lambda>(mid, name). (JStr mid, JStr name)) FALLBACK_MODELS)"
  by (simp add: resolve_models_def)

lemma fallback_keys:
  "list_all (\<lambda>kv. is_str (fst kv)) (map (\<lambda>(mid, name). (JStr mid, JStr name)) FALLBACK_MODELS)"
  by (simp add: FALLBACK_MODELS_def)

text \<open>
  The model map of a run has two items or more and a string among its keys, so the run
  never gets to what the model leaves out.
\<close>

lemma resolve_models_keys:
  assumes "resolve_models offline fetched = Inr d"
  shows "2 \<le> length d \<and> (\<exists>kv\<in>set d. is_str (fst kv))"
proof (cases "offline \<or> fetched = None")
  case True
  with assms have "d = map (\<lambda>(mid, name). (JStr mid, JStr name)) FALLBACK_MODELS"
    by (auto simp: resolve_models_def split: if_splits)
  then show ?thesis by (simp add: FALLBACK_MODELS_def)
next
  case False
  then obtain raw where "fetched = Some raw" by auto
  with assms False have "collect_free_models MANUAL_MODELS raw = Inr d"
    by (simp add: resolve_models_def)
  from collect_free_models_manual_keys [OF this] show ?thesis by force
qed

lemma resolve_models_Inl:
  assumes "resolve_models offline fetched = Inl e"
  shows "e = AttributeError \<or> e = KeyError \<or> e = TypeError"
proof -
  from assms obtain raw where "collect_free_models MANUAL_MODELS raw = Inl e"
    by (auto simp: resolve_models_def split: if_splits option.splits)
  then show ?thesis by (rule collect_free_models_Inl)
qed

lemma install_config_Inl:
  assumes "install_config loaded model_entries = Inl e"
  shows "e = AttributeError \<or> e = TypeError"
  using assms
  by (auto simp: install_config_def ensure_schema_def existing_provider_def updated_provider_def
           split: sum.splits json.splits if_splits)

lemma main_never_Unmodelled: "main dry_run offline fetched file writable \<noteq> Inl Unmodelled"
proof (cases "resolve_models offline fetched")
  case (Inl e)
  from resolve_models_Inl [OF Inl] have "e \<noteq> Unmodelled" by auto
  with Inl show ?thesis by (simp add: main_def)
next
  case r: (Inr d)
  from resolve_models_keys [OF r] obtain kv where len: "2 \<le> length d"
    and kv: "kv \<in> set d" "is_str (fst kv)"
    by blast
  show ?thesis
  proof (cases "build_model_entries d")
    case (Inl e)
    then have "sorted_items d = Inl e"
      by (simp add: build_model_entries_def split: sum.splits)
    from sorted_items_Inl [OF this kv] Inl r show ?thesis
      by (simp add: main_def)
  next
    case b: (Inr entries)
    then obtain items where s: "sorted_items d = Inr items"
      by (auto simp: build_model_entries_def split: sum.splits)
    from sorted_items_mixed [OF s len kv]
    obtain entries' model_entries where "build_model_entries d = Inr entries'"
      and "string_keys entries' = Some model_entries"
      using build_model_entries_strings by blast
    with b have k: "string_keys entries = Some model_entries" by simp
    show ?thesis
    proof (cases "load_existing file")
      case (Inl e)
      then have "e = SystemExit 1"
        by (cases "file") (simp_all add: load_existing_def)
      with Inl r b k show ?thesis by (simp add: main_def)
    next
      case l: (Inr loaded)
      show ?thesis
      proof (cases "install_config loaded model_entries")
        case (Inl e)
        from install_config_Inl [OF Inl] have "e \<noteq> Unmodelled" by auto
        with Inl r b k l show ?thesis by (simp add: main_def)
      next
        case (Inr merged)
        with r b k l show ?thesis by (simp add: main_def)
      qed
    qed
  qed
qed

text \<open>
  C2, as the code has it. Let an install run load the document \<open>loaded\<close> and write
  \<open>written\<close>. Take any path of keys \<open>p\<close> outside the owned subtree
  \<open>provider.kilo-gateway-free\<close>, that is, neither inside it nor one of the two
  dictionaries that contain it. Whatever \<open>loaded\<close> holds at \<open>p\<close>, \<open>written\<close> holds the
  same value at \<open>p\<close>; and \<open>written\<close> holds nothing at such a path that \<open>loaded\<close> did not
  hold, except under the top-level key \<open>$schema\<close> when \<open>loaded\<close> has no such key: the run
  adds it.
\<close>

theorem install_preserves_unowned_keys:
  assumes "load_existing file = Inr loaded"
    and "main dry_run offline fetched file writable = Inr (Persisted written)"
    and "\<not> prefix p owned_path" and "\<not> prefix owned_path p"
  shows "(get_path loaded p = Some v \<longrightarrow> get_path written p = Some v) \<and>
         (hd p \<noteq> ''$schema'' \<or> get_path loaded [''$schema''] \<noteq> None
          \<longrightarrow> get_path written p = get_path loaded p)"
proof -
  from assms(1,2) obtain model_entries
    where i: "install_config loaded model_entries = Inr written"
    by (rule main_Persisted)
  have a: "get_path written p = get_path loaded p"
    if "hd p \<noteq> ''$schema'' \<or> get_path loaded [''$schema''] \<noteq> None"
    using i assms(3,4) that by (rule install_config_frame)
  have "get_path written p = Some v" if v: "get_path loaded p = Some v"
  proof (cases "hd p = ''$schema''")
    case False
    with a v show ?thesis by simp
  next
    case True
    from assms(3) obtain k ks where p: "p = k # ks" by (cases p) auto
    with True have k: "k = ''$schema''" by simp
    from v p k have "get_path loaded [''$schema''] \<noteq> None"
      by (cases loaded) (auto split: option.splits)
    with a v show ?thesis by simp
  qed
  with a show ?thesis by blast
qed

text \<open>
  C10. The document written by an install run has a top-level \<open>$schema\<close> key: the value
  the loaded document had there, or \<open>https://opencode.ai/config.json\<close> when it had none.
\<close>

theorem install_sets_or_keeps_schema:
  assumes "load_existing file = Inr loaded"
    and "main dry_run offline fetched file writable = Inr (Persisted written)"
  shows "\<exists>kvs kvs'. loaded = JObj kvs \<and> written = JObj kvs' \<and>
           map_of kvs' ''$schema'' =
             Some (case map_of kvs ''$schema'' of
                     None \<Rightarrow> JStr ''https://opencode.ai/config.json''
                   | Some v \<Rightarrow> v)"
proof -
  from assms obtain model_entries
    where "install_config loaded model_entries = Inr written"
    by (rule main_Persisted)
  then show ?thesis by (rule install_config_schema)
qed

theorem install_preserves_unowned_keys_witness:
  "load_existing
     (Parsed (JObj [(''other'', JObj [(''x'', JInt 1)]),
                    (''provider'', JObj [(''openai'', JObj [(''k'', JStr ''v'')]),
                                         (PROVIDER_KEY, JObj [(''models'', JObj [])])])]))
     = Inr (JObj [(''other'', JObj [(''x'', JInt 1)]),
                  (''provider'', JObj [(''openai'', JObj [(''k'', JStr ''v'')]),
                                       (PROVIDER_KEY, JObj [(''models'', JObj [])])])]) \<and>
   \<not> prefix [''other'', ''x''] owned_path \<and> \<not> prefix owned_path [''other'', ''x''] \<and>
   \<not> prefix [''provider'', ''openai''] owned_path \<and>
   \<not> prefix owned_path [''provider'', ''openai''] \<and>
   \<not> prefix [''absent''] owned_path \<and> \<not> prefix owned_path [''absent''] \<and>
   hd [''absent''] \<noteq> ''$schema'' \<and>
   (\<exists>written.
      main False True None
        (Parsed (JObj [(''other'', JObj [(''x'', JInt 1)]),
                       (''provider'', JObj [(''openai'', JObj [(''k'', JStr ''v'')]),
                                            (PROVIDER_KEY, JObj [(''models'', JObj [])])])]))
        True = Inr (Persisted written) \<and>
      get_path written [''other'', ''x''] = Some (JInt 1) \<and>
      get_path written [''provider'', ''openai''] = Some (JObj [(''k'', JStr ''v'')]) \<and>
      get_path written [''absent''] = None)"
proof -
  let ?D = "JObj [(''other'', JObj [(''x'', JInt 1)]),
                  (''provider'', JObj [(''openai'', JObj [(''k'', JStr ''v'')]),
                                       (PROVIDER_KEY, JObj [(''models'', JObj [])])])]"
  have l: "load_existing (Parsed ?D) = Inr ?D"
    by (simp add: load_existing_def)
  note r = resolve_models_offline [of None] and f = fallback_keys
  have "\<exists>written. main False True None (Parsed ?D) True = Inr (Persisted written)"
    by (rule main_persists [OF r f l]) (simp add: PROVIDER_KEY_def)
  then obtain written where w: "main False True None (Parsed ?D) True = Inr (Persisted written)" ..
  have p1: "\<not> prefix [''other'', ''x''] owned_path" "\<not> prefix owned_path [''other'', ''x'']"
    by (simp_all add: owned_path_def)
  have p2: "\<not> prefix [''provider'', ''openai''] owned_path"
           "\<not> prefix owned_path [''provider'', ''openai'']"
    by (simp_all add: owned_path_def PROVIDER_KEY_def)
  have "get_path ?D [''other'', ''x''] = Some (JInt 1)" by simp
  with install_preserves_unowned_keys [OF l w p1, of "JInt 1"]
  have g1: "get_path written [''other'', ''x''] = Some (JInt 1)" by blast
  have "get_path ?D [''provider'', ''openai''] = Some (JObj [(''k'', JStr ''v'')])"
    by (simp add: PROVIDER_KEY_def)
  with install_preserves_unowned_keys [OF l w p2, of "JObj [(''k'', JStr ''v'')]"]
  have g2: "get_path written [''provider'', ''openai''] = Some (JObj [(''k'', JStr ''v'')])"
    by blast
  have p3: "\<not> prefix [''absent''] owned_path" "\<not> prefix owned_path [''absent'']"
    by (simp_all add: owned_path_def)
  have h3: "hd [''absent''] \<noteq> ''$schema''" by simp
  have "get_path ?D [''absent''] = None" by (simp add: PROVIDER_KEY_def)
  with install_preserves_unowned_keys [OF l w p3, of JNull] h3
  have g3: "get_path written [''absent''] = None" by simp
  from l p1 p2 p3 h3 w g1 g2 g3 show ?thesis by blast
qed

theorem install_sets_or_keeps_schema_witness:
  "load_existing NoFile = Inr (JObj []) \<and>
   (\<exists>kvs'. main False True None NoFile True = Inr (Persisted (JObj kvs')) \<and>
           map_of kvs' ''$schema'' = Some (JStr ''https://opencode.ai/config.json'')) \<and>
   load_existing (Parsed (JObj [(''$schema'', JStr ''mine'')]))
     = Inr (JObj [(''$schema'', JStr ''mine'')]) \<and>
   (\<exists>kvs'. main False True None (Parsed (JObj [(''$schema'', JStr ''mine'')])) True
             = Inr (Persisted (JObj kvs')) \<and>
           map_of kvs' ''$schema'' = Some (JStr ''mine''))"
proof -
  note r = resolve_models_offline [of None] and f = fallback_keys
  have l1: "load_existing NoFile = Inr (JObj [])"
    by (simp add: load_existing_def)
  have "\<exists>written. main False True None NoFile True = Inr (Persisted written)"
    by (rule main_persists [OF r f l1]) simp
  then obtain w1 where w1: "main False True None NoFile True = Inr (Persisted w1)" ..
  from install_sets_or_keeps_schema [OF l1 w1]
  have a: "\<exists>kvs'. main False True None NoFile True = Inr (Persisted (JObj kvs')) \<and>
           map_of kvs' ''$schema'' = Some (JStr ''https://opencode.ai/config.json'')"
    using w1 by auto
  let ?D = "JObj [(''$schema'', JStr ''mine'')]"
  have l2: "load_existing (Parsed ?D) = Inr ?D"
    by (simp add: load_existing_def)
  have "\<exists>written. main False True None (Parsed ?D) True = Inr (Persisted written)"
    by (rule main_persists [OF r f l2]) simp
  then obtain w2 where w2: "main False True None (Parsed ?D) True = Inr (Persisted w2)" ..
  from install_sets_or_keeps_schema [OF l2 w2]
  have b: "\<exists>kvs'. main False True None (Parsed ?D) True = Inr (Persisted (JObj kvs')) \<and>
           map_of kvs' ''$schema'' = Some (JStr ''mine'')"
    using w2 by auto
  from l1 a l2 b show ?thesis by blast
qed

text \<open>
  The claim as the specification states it, agreement on every key outside the owned
  subtree, fails at its own example. The document \<^verbatim>\<open>{"other": {"x": 1}}\<close> has nothing
  under \<open>$schema\<close>, which is a path outside the owned subtree, and the written document
  has the schema address there.
\<close>

theorem install_adds_schema_counterexample:
  "\<not> prefix [''$schema''] owned_path \<and> \<not> prefix owned_path [''$schema''] \<and>
   load_existing (Parsed (JObj [(''other'', JObj [(''x'', JInt 1)])]))
     = Inr (JObj [(''other'', JObj [(''x'', JInt 1)])]) \<and>
   main False False (Some []) (Parsed (JObj [(''other'', JObj [(''x'', JInt 1)])])) True =
     Inr (Persisted (JObj
       [(''other'', JObj [(''x'', JInt 1)]),
        (''$schema'', JStr ''https://opencode.ai/config.json''),
        (''provider'', JObj [(''kilo-gateway-free'', JObj
          [(''npm'', JStr ''@ai-sdk/openai-compatible''),
           (''name'', JStr ''Kilo Gateway Free''),
           (''options'', JObj
              [(''baseURL'', JStr ''https://api.kilo.ai/api/openrouter/''),
               (''apiKey'', JStr ''anonymous''),
               (''headers'', JObj [(''User-Agent'', JStr ''opencode-kilo-provider'')])]),
           (''models'', JObj
              [(''giga-potato'', JObj [(''name'', JStr ''Giga Potato (free)'')]),
               (''giga-potato-thinking'',
                JObj [(''name'', JStr ''Giga Potato Thinking (free)'')])])])])])) \<and>
   get_path (JObj [(''other'', JObj [(''x'', JInt 1)])]) [''$schema''] = None \<and>
   get_path (JObj
       [(''other'', JObj [(''x'', JInt 1)]),
        (''$schema'', JStr ''https://opencode.ai/config.json''),
        (''provider'', JObj [(''kilo-gateway-free'', JObj
          [(''npm'', JStr ''@ai-sdk/openai-compatible''),
           (''name'', JStr ''Kilo Gateway Free''),
           (''options'', JObj
              [(''baseURL'', JStr ''https://api.kilo.ai/api/openrouter/''),
               (''apiKey'', JStr ''anonymous''),
               (''headers'', JObj [(''User-Agent'', JStr ''opencode-kilo-provider'')])]),
           (''models'', JObj
              [(''giga-potato'', JObj [(''name'', JStr ''Giga Potato (free)'')]),
               (''giga-potato-thinking'',
                JObj [(''name'', JStr ''Giga Potato Thinking (free)'')])])])])])
     [''$schema''] = Some (JStr ''https://opencode.ai/config.json'')"
  by code_simp

text \<open>
  C1. The models of the written provider entry are not the entries built from the fresh
  model map when the file already lists other models: \<open>deep_merge\<close> finds a dictionary
  under \<open>models\<close> on both sides and merges them, so an old id stays. Here the catalogue is
  empty, the fresh model map is the two manual models, and the file lists \<open>stale:free\<close>.
\<close>

theorem install_keeps_stale_model_ids:
  "resolve_models False (Some []) =
     Inr [(JStr ''giga-potato'', JStr ''Giga Potato (free)''),
          (JStr ''giga-potato-thinking'', JStr ''Giga Potato Thinking (free)'')] \<and>
   build_model_entries
     [(JStr ''giga-potato'', JStr ''Giga Potato (free)''),
      (JStr ''giga-potato-thinking'', JStr ''Giga Potato Thinking (free)'')] =
     Inr [(JStr ''giga-potato'', JObj [(''name'', JStr ''Giga Potato (free)'')]),
          (JStr ''giga-potato-thinking'', JObj [(''name'', JStr ''Giga Potato Thinking (free)'')])] \<and>
   main False False (Some [])
     (Parsed (JObj [(''provider'', JObj [(''kilo-gateway-free'',
        JObj [(''models'', JObj [(''stale:free'', JObj [(''name'', JStr ''Stale'')])])])])]))
     True =
     Inr (Persisted (JObj
       [(''provider'', JObj [(''kilo-gateway-free'', JObj
          [(''models'', JObj
             [(''stale:free'', JObj [(''name'', JStr ''Stale'')]),
              (''giga-potato'', JObj [(''name'', JStr ''Giga Potato (free)'')]),
              (''giga-potato-thinking'', JObj [(''name'', JStr ''Giga Potato Thinking (free)'')])]),
           (''npm'', JStr ''@ai-sdk/openai-compatible''),
           (''name'', JStr ''Kilo Gateway Free''),
           (''options'', JObj
              [(''baseURL'', JStr ''https://api.kilo.ai/api/openrouter/''),
               (''apiKey'', JStr ''anonymous''),
               (''headers'', JObj [(''User-Agent'', JStr ''opencode-kilo-provider'')])])])]),
        (''$schema'', JStr ''https://opencode.ai/config.json'')]))"
  by code_simp

section \<open>The merge writes to new objects only\<close>

lemma heap_lookup_Some: "heap_lookup h a = Some obj \<longleftrightarrow> a < length h \<and> h ! a = obj"
  by (auto simp: heap_lookup_def)

lemma length_dict_store [simp]: "length (dict_store h r key v) = length h"
  by (simp add: dict_store_def split: option.split hobj.split)

lemma dict_store_other: "a \<noteq> r \<Longrightarrow> dict_store h r key v ! a = h ! a"
  by (simp add: dict_store_def split: option.split hobj.split)

lemma merge_items_Cons_Inr:
  assumes "merge_items d h r ((key, value) # items) = Inr (h', r')"
  obtains (merged) a a' h1 r1 where
      "deep_merge_h d h a a' = Inr (h1, r1)"
      "merge_items d (dict_store h1 r key (HRef r1)) r items = Inr (h', r')"
    | (stored) "merge_items d (dict_store h r key value) r items = Inr (h', r')"
  using assms
  by (auto split: option.splits hobj.splits hval.splits if_splits sum.splits prod.splits)

text \<open>The loop keeps the address of \<open>result\<close> and writes to no other object that exists.\<close>

lemma merge_items_frame:
  assumes calls: "\<And>h a a' h1 r1. deep_merge_h d h a a' = Inr (h1, r1) \<Longrightarrow>
                    length h \<le> length h1 \<and> (\<forall>x<length h. h1 ! x = h ! x)"
    and "merge_items d h r items = Inr (h', r')"
  shows "r' = r \<and> length h \<le> length h' \<and> (\<forall>x<length h. x \<noteq> r \<longrightarrow> h' ! x = h ! x)"
  using assms(2)
proof (induction items arbitrary: h)
  case Nil
  then show ?case by simp
next
  case (Cons kv items)
  obtain key "value" where kv: "kv = (key, value)" by (cases kv)
  from Cons.prems have run: "merge_items d h r ((key, value) # items) = Inr (h', r')"
    by (simp only: kv)
  from run show ?case
  proof (cases rule: merge_items_Cons_Inr)
    case (merged a a' h1 r1)
    from calls [OF merged(1)] have h1: "length h \<le> length h1" "\<forall>x<length h. h1 ! x = h ! x"
      by simp_all
    from Cons.IH [OF merged(2)]
    have "r' = r" "length h1 \<le> length h'"
      "\<forall>x<length h1. x \<noteq> r \<longrightarrow> h' ! x = dict_store h1 r key (HRef r1) ! x"
      by simp_all
    with h1 show ?thesis
      by (auto simp: dict_store_other)
  next
    case stored
    from Cons.IH [OF stored]
    have "r' = r" "length h \<le> length h'"
      "\<forall>x<length h. x \<noteq> r \<longrightarrow> h' ! x = dict_store h r key value ! x"
      by simp_all
    then show ?thesis
      by (auto simp: dict_store_other)
  qed
qed

lemma deep_merge_h_frame:
  "deep_merge_h d h base override = Inr (h', r) \<Longrightarrow>
   r = length h \<and> length h < length h' \<and> (\<forall>x<length h. h' ! x = h ! x)"
proof (induction d arbitrary: h base override h' r)
  case 0
  then show ?case by simp
next
  case (Suc d)
  have calls: "length h \<le> length h1 \<and> (\<forall>x<length h. h1 ! x = h ! x)"
    if "deep_merge_h d h a a' = Inr (h1, r1)" for h a a' h1 r1
    using Suc.IH [OF that] by simp
  from Suc.prems consider
      (dicts) bkvs okvs where "heap_lookup h base = Some (HDict bkvs)"
        "merge_items d (h @ [HDict bkvs]) (length h) okvs = Inr (h', r)"
    | (list) xs where "h' = h @ [HList xs]" "r = length h"
    by (auto split: option.splits hobj.splits if_splits)
  then show ?case
  proof cases
    case dicts
    from merge_items_frame [OF calls dicts(2)]
    have "r = length h" "length (h @ [HDict bkvs]) \<le> length h'"
      "\<forall>x<length (h @ [HDict bkvs]). x \<noteq> length h \<longrightarrow> h' ! x = (h @ [HDict bkvs]) ! x"
      by simp_all
    then show ?thesis
      by (auto simp: nth_append)
  next
    case list
    then show ?thesis by (simp add: nth_append)
  qed
qed

lemma deep_merge_h_args:
  assumes "deep_merge_h d h base override = Inr x"
  shows "base < length h \<and> override < length h"
proof (cases d)
  case 0
  with assms show ?thesis by simp
next
  case (Suc n)
  with assms have "heap_lookup h base \<noteq> None \<and> heap_lookup h override \<noteq> None"
    by (simp split: option.splits hobj.splits)
  then show ?thesis
    by (simp add: heap_lookup_def split: if_splits)
qed

lemma those_Some_all: "those ys = Some zs \<Longrightarrow> y \<in> set ys \<Longrightarrow> \<exists>z. y = Some z"
  by (induction ys arbitrary: zs) (auto split: option.splits)

lemma those_items_Some_all:
  "those_items ps = Some zs \<Longrightarrow> (k, y) \<in> set ps \<Longrightarrow> \<exists>z. y = Some z"
proof (induction ps arbitrary: zs rule: those_items.induct)
  case 1
  then show ?case by simp
next
  case (2 k kvs)
  then show ?case by simp
next
  case (3 k j kvs)
  then show ?case by auto
qed

text \<open>A value that can be read in a store reads the same in every store that extends it.\<close>

lemma value_of_extend:
  assumes "length h \<le> length h'" and "\<forall>x<length h. h' ! x = h ! x"
  shows "value_of d h v = Some j \<Longrightarrow> value_of d h' v = Some j"
proof (induction d arbitrary: v j)
  case 0
  then show ?case by (cases v) simp_all
next
  case (Suc d)
  show ?case
  proof (cases v)
    case (HRef a)
    from Suc.prems HRef obtain obj where obj: "heap_lookup h a = Some obj"
      by (auto split: option.splits)
    with assms have obj': "heap_lookup h' a = Some obj"
      by (auto simp: heap_lookup_Some)
    show ?thesis
    proof (cases obj)
      case (HList xs)
      from Suc.prems HRef obj HList obtain js where js: "those (map (value_of d h) xs) = Some js"
        by auto
      have eq: "map (value_of d h') xs = map (value_of d h) xs"
      proof (rule map_cong [OF refl])
        fix x assume "x \<in> set xs"
        with js obtain z where "value_of d h x = Some z"
          using those_Some_all [of "map (value_of d h) xs" js "value_of d h x"] by auto
        then show "value_of d h' x = value_of d h x"
          by (simp add: Suc.IH)
      qed
      from HRef obj' HList
      have "value_of (Suc d) h' v = map_option JArr (those (map (value_of d h') xs))"
        by simp
      also have "\<dots> = map_option JArr (those (map (value_of d h) xs))"
        by (simp only: eq)
      also from HRef obj HList have "\<dots> = value_of (Suc d) h v"
        by simp
      finally show ?thesis using Suc.prems by simp
    next
      case (HDict kvs)
      let ?f = "\<lambda>g. map (\<lambda>kv. (fst kv, value_of d g (snd kv))) kvs"
      from Suc.prems HRef obj HDict obtain js where js: "those_items (?f h) = Some js"
        by auto
      have eq: "?f h' = ?f h"
      proof (rule map_cong [OF refl])
        fix kv assume kv: "kv \<in> set kvs"
        then have "(fst kv, value_of d h (snd kv)) \<in> set (?f h)"
          by (simp add: image_iff) blast
        with js obtain z where "value_of d h (snd kv) = Some z"
          using those_items_Some_all by blast
        then show "(fst kv, value_of d h' (snd kv)) = (fst kv, value_of d h (snd kv))"
          by (simp add: Suc.IH)
      qed
      from HRef obj' HDict
      have "value_of (Suc d) h' v = map_option JObj (those_items (?f h'))"
        by simp
      also have "\<dots> = map_option JObj (those_items (?f h))"
        by (simp only: eq)
      also from HRef obj HDict have "\<dots> = value_of (Suc d) h v"
        by simp
      finally show ?thesis using Suc.prems by simp
    qed
  qed (use Suc.prems in simp_all)
qed

text \<open>
  C6. When \<open>deep_merge(base, override)\<close> returns, every object that existed before the
  call is what it was, \<open>base\<close> and \<open>override\<close> among them, so every value that could be
  read before the call, at any depth, reads the same after it; and the result is a new
  object, at an address the store did not have.
\<close>

theorem deep_merge_leaves_arguments_unchanged:
  assumes "deep_merge_h depth h base override = Inr (h', result)"
  shows "(\<forall>a<length h. h' ! a = h ! a) \<and>
         heap_lookup h' base = heap_lookup h base \<and>
         heap_lookup h' override = heap_lookup h override \<and>
         (\<forall>d v j. value_of d h v = Some j \<longrightarrow> value_of d h' v = Some j) \<and>
         result = length h \<and> heap_lookup h result = None \<and>
         (\<exists>kvs. heap_lookup h' result = Some kvs)"
proof -
  from deep_merge_h_frame [OF assms]
  have r: "result = length h" and len: "length h < length h'"
    and same: "\<forall>x<length h. h' ! x = h ! x"
    by simp_all
  from deep_merge_h_args [OF assms] have args: "base < length h" "override < length h"
    by simp_all
  from len have le: "length h \<le> length h'" by simp
  have "value_of d h v = Some j \<longrightarrow> value_of d h' v = Some j" for d v j
    using value_of_extend [OF le same] by blast
  with r len same args show ?thesis
    by (simp add: heap_lookup_def)
qed

theorem deep_merge_leaves_arguments_unchanged_witness:
  "deep_merge_h 2
     [HDict [(''a'', HRef 2), (''b'', HInt 1)], HDict [(''a'', HRef 3), (''c'', HRef 4)],
      HDict [(''x'', HInt 1)], HDict [(''y'', HInt 2)], HList [HInt 7]] 0 1
   = Inr ([HDict [(''a'', HRef 2), (''b'', HInt 1)], HDict [(''a'', HRef 3), (''c'', HRef 4)],
           HDict [(''x'', HInt 1)], HDict [(''y'', HInt 2)], HList [HInt 7],
           HDict [(''a'', HRef 6), (''b'', HInt 1), (''c'', HRef 4)],
           HDict [(''x'', HInt 1), (''y'', HInt 2)]], 5) \<and>
   heap_lookup
     [HDict [(''a'', HRef 2), (''b'', HInt 1)], HDict [(''a'', HRef 3), (''c'', HRef 4)],
      HDict [(''x'', HInt 1)], HDict [(''y'', HInt 2)], HList [HInt 7],
      HDict [(''a'', HRef 6), (''b'', HInt 1), (''c'', HRef 4)],
      HDict [(''x'', HInt 1), (''y'', HInt 2)]] 0
   = heap_lookup
     [HDict [(''a'', HRef 2), (''b'', HInt 1)], HDict [(''a'', HRef 3), (''c'', HRef 4)],
      HDict [(''x'', HInt 1)], HDict [(''y'', HInt 2)], HList [HInt 7]] 0 \<and>
   value_of 2
     [HDict [(''a'', HRef 2), (''b'', HInt 1)], HDict [(''a'', HRef 3), (''c'', HRef 4)],
      HDict [(''x'', HInt 1)], HDict [(''y'', HInt 2)], HList [HInt 7],
      HDict [(''a'', HRef 6), (''b'', HInt 1), (''c'', HRef 4)],
      HDict [(''x'', HInt 1), (''y'', HInt 2)]] (HRef 0)
   = Some (JObj [(''a'', JObj [(''x'', JInt 1)]), (''b'', JInt 1)])"
proof -
  let ?h = "[HDict [(''a'', HRef 2), (''b'', HInt 1)], HDict [(''a'', HRef 3), (''c'', HRef 4)],
      HDict [(''x'', HInt 1)], HDict [(''y'', HInt 2)], HList [HInt 7]]"
  let ?h' = "[HDict [(''a'', HRef 2), (''b'', HInt 1)], HDict [(''a'', HRef 3), (''c'', HRef 4)],
      HDict [(''x'', HInt 1)], HDict [(''y'', HInt 2)], HList [HInt 7],
      HDict [(''a'', HRef 6), (''b'', HInt 1), (''c'', HRef 4)],
      HDict [(''x'', HInt 1), (''y'', HInt 2)]]"
  have run: "deep_merge_h 2 ?h 0 1 = Inr (?h', 5)"
    by code_simp
  note t = deep_merge_leaves_arguments_unchanged [OF run]
  from t have base: "heap_lookup ?h' 0 = heap_lookup ?h 0" by blast
  have "value_of 2 ?h (HRef 0) = Some (JObj [(''a'', JObj [(''x'', JInt 1)]), (''b'', JInt 1)])"
    by code_simp
  with t have v: "value_of 2 ?h' (HRef 0)
      = Some (JObj [(''a'', JObj [(''x'', JInt 1)]), (''b'', JInt 1)])"
    by blast
  from run base v show ?thesis by (intro conjI)
qed

section \<open>The merge on the store computes the merge on values\<close>

lemma read_items_Nil [simp]: "read_items d h [] = Some []"
  by (simp add: read_items_def)

lemma read_items_Cons:
  "read_items d h ((k, v) # kvs) =
     (case value_of d h v of
        None \<Rightarrow> None
      | Some j \<Rightarrow> map_option (\<lambda>rest. (k, j) # rest) (read_items d h kvs))"
  by (simp add: read_items_def split: option.split)

lemma read_items_Cons_Some:
  "read_items d h ((k, v) # kvs) = Some R \<longleftrightarrow>
     (\<exists>j R'. value_of d h v = Some j \<and> read_items d h kvs = Some R' \<and> R = (k, j) # R')"
  by (auto simp: read_items_Cons split: option.splits)

lemma value_of_HRef_dict:
  "heap_lookup h a = Some (HDict kvs) \<Longrightarrow>
   value_of (Suc d) h (HRef a) = map_option JObj (read_items d h kvs)"
  by (simp add: read_items_def)

lemma value_of_JObj:
  assumes "value_of d h (HRef a) = Some (JObj A)"
  obtains n kvs where "d = Suc n" "heap_lookup h a = Some (HDict kvs)" "read_items n h kvs = Some A"
proof (cases d)
  case 0
  with assms show ?thesis by simp
next
  case (Suc n)
  with assms obtain obj where obj: "heap_lookup h a = Some obj"
    by (auto split: option.splits)
  show ?thesis
  proof (cases obj)
    case (HDict kvs)
    with assms Suc obj have "read_items n h kvs = Some A"
      by (auto simp: read_items_def)
    with Suc obj HDict show ?thesis by (intro that) simp_all
  next
    case (HList xs)
    with assms Suc obj show ?thesis by auto
  qed
qed

lemma value_of_is_dict:
  "value_of d h v = Some (JObj A) \<Longrightarrow> is_dict h v"
proof (cases v)
  case (HRef a)
  assume "value_of d h v = Some (JObj A)"
  with HRef have "value_of d h (HRef a) = Some (JObj A)" by simp
  then obtain n kvs where "heap_lookup h a = Some (HDict kvs)"
    by (rule value_of_JObj)
  with HRef show ?thesis by (simp add: is_dict_def)
qed simp_all

lemma is_dict_value_of:
  assumes "is_dict h (HRef a)" and "value_of d h (HRef a) = Some j"
  obtains A where "j = JObj A"
proof -
  from assms(1) obtain kvs where kvs: "heap_lookup h a = Some (HDict kvs)"
    by (auto simp: is_dict_def split: option.splits hobj.splits)
  from assms(2) obtain n where n: "d = Suc n" by (cases d) simp_all
  from assms(2) kvs n obtain A where "j = JObj A"
    by (auto simp: read_items_def)
  then show ?thesis by (rule that)
qed

lemma read_items_lookup:
  "read_items d h res = Some R \<Longrightarrow>
   map_of R key = (case map_of res key of None \<Rightarrow> None | Some v \<Rightarrow> value_of d h v)"
proof (induction res arbitrary: R)
  case Nil
  then show ?case by simp
next
  case (Cons kv res)
  obtain k v where kv: "kv = (k, v)" by (cases kv)
  from Cons.prems obtain j R' where j: "value_of d h v = Some j"
    and R': "read_items d h res = Some R'" and R: "R = (k, j) # R'"
    by (auto simp: kv read_items_Cons_Some)
  from Cons.IH [OF R'] j show ?case
    by (simp add: kv R)
qed

lemma read_items_lookup_Some:
  assumes "read_items d h res = Some R" and "map_of res key = Some v"
  obtains j where "value_of d h v = Some j" "map_of R key = Some j"
proof -
  from map_of_SomeD [OF assms(2)] have "(key, v) \<in> set res" .
  then have "(key, value_of d h v) \<in> set (map (\<lambda>kv. (fst kv, value_of d h (snd kv))) res)"
    by force
  with assms(1) obtain j where j: "value_of d h v = Some j"
    unfolding read_items_def using those_items_Some_all by blast
  with read_items_lookup [OF assms(1), of key] assms(2) have "map_of R key = Some j"
    by simp
  with j show ?thesis by (rule that)
qed

lemma read_items_update:
  "read_items d h res = Some R \<Longrightarrow> value_of d h v = Some j \<Longrightarrow>
   read_items d h (AList.update key v res) = Some (AList.update key j R)"
proof (induction res arbitrary: R)
  case Nil
  then show ?case by (simp add: read_items_Cons)
next
  case (Cons kv res)
  obtain k0 v0 where kv: "kv = (k0, v0)" by (cases kv)
  from Cons.prems(1) obtain j0 R' where j0: "value_of d h v0 = Some j0"
    and R': "read_items d h res = Some R'" and R: "R = (k0, j0) # R'"
    by (auto simp: kv read_items_Cons_Some)
  show ?case
  proof (cases "k0 = key")
    case True
    with Cons.prems(2) R' show ?thesis
      by (simp add: kv R read_items_Cons)
  next
    case False
    with Cons.IH [OF R' Cons.prems(2)] j0 show ?thesis
      by (simp add: kv R read_items_Cons)
  qed
qed

lemma read_items_extend:
  assumes "length h \<le> length h'" and "\<forall>x<length h. h' ! x = h ! x"
  shows "read_items d h kvs = Some R \<Longrightarrow> read_items d h' kvs = Some R"
proof (induction kvs arbitrary: R)
  case Nil
  then show ?case by simp
next
  case (Cons kv kvs)
  obtain k v where kv: "kv = (k, v)" by (cases kv)
  from Cons.prems obtain j R' where j: "value_of d h v = Some j"
    and R': "read_items d h kvs = Some R'" and R: "R = (k, j) # R'"
    by (auto simp: kv read_items_Cons_Some)
  from j have "value_of d h' v = Some j"
    by (rule value_of_extend [OF assms])
  with Cons.IH [OF R'] show ?case
    by (simp add: kv R read_items_Cons)
qed

lemma same_outside_refl [simp]: "same_outside X h h"
  by (simp add: same_outside_def)

lemma same_outside_mono: "X \<subseteq> Y \<Longrightarrow> same_outside X h g \<Longrightarrow> same_outside Y h g"
  by (auto simp: same_outside_def)

lemma same_outside_dict_store:
  assumes "r \<in> Y" and "same_outside Y (dict_store h r key v) g"
  shows "same_outside Y h g"
proof -
  have "g ! x = h ! x" if "x < length h" "x \<notin> Y" for x
  proof -
    from that assms(1) have "x \<noteq> r" by blast
    then have "dict_store h r key v ! x = h ! x" by (rule dict_store_other)
    with assms(2) that show ?thesis by (simp add: same_outside_def)
  qed
  with assms(2) show ?thesis by (simp add: same_outside_def)
qed

lemma same_outside_nth: "same_outside X h g \<Longrightarrow> x < length h \<Longrightarrow> x \<notin> X \<Longrightarrow> g ! x = h ! x"
  by (simp add: same_outside_def)

lemma same_outside_lookup:
  "same_outside X h g \<Longrightarrow> x \<notin> X \<Longrightarrow> heap_lookup g x = heap_lookup h x"
  by (simp add: same_outside_def heap_lookup_def)

text \<open>
  What reads the same in every store that differs from \<open>h\<close> inside \<open>Y\<close> only also reads
  the same in every store that differs inside \<open>Y\<close> only from an extension of \<open>h\<close>.
\<close>

lemma stable_items_extend:
  assumes stable: "\<forall>g. same_outside Y h g \<longrightarrow> read_items d g kvs = Some R"
    and ext: "length h \<le> length h1" "\<forall>x<length h. h1 ! x = h ! x"
    and g: "same_outside Y h1 g"
  shows "read_items d g kvs = Some R"
proof -
  let ?g0 = "take (length h) g"
  from ext g have "same_outside Y h ?g0"
    by (auto simp: same_outside_def)
  with stable have "read_items d ?g0 kvs = Some R" by blast
  moreover from ext g have "length ?g0 \<le> length g" "\<forall>x<length ?g0. g ! x = ?g0 ! x"
    by (auto simp: same_outside_def)
  ultimately show ?thesis by (rule read_items_extend [rotated 2])
qed

text \<open>
  The loop, given that calls at the depth of the loop compute the merge. \<open>Y\<close> holds the
  address of \<open>result\<close> (and the results of the enclosing calls): what the loop has read so
  far reads the same whatever objects sit there.
\<close>

lemma merge_items_refines:
  assumes calls: "\<And>X h a a' A A'.
      X \<subseteq> {..<length h} \<Longrightarrow>
      \<forall>g. same_outside X h g \<longrightarrow>
          value_of d g (HRef a) = Some (JObj A) \<and> value_of d g (HRef a') = Some (JObj A') \<Longrightarrow>
      \<exists>h' r. deep_merge_h d h a a' = Inr (h', r) \<and>
        (\<forall>g. same_outside X h' g \<longrightarrow> value_of d g (HRef r) = Some (JObj (deep_merge A A')))"
    and "Y \<subseteq> {..<length h}" and "r \<in> Y"
    and "heap_lookup h r = Some (HDict res)"
    and "\<forall>g. same_outside Y h g \<longrightarrow> read_items d g res = Some R \<and> read_items d g items = Some I"
  shows "\<exists>h' res'. merge_items d h r items = Inr (h', r) \<and>
           heap_lookup h' r = Some (HDict res') \<and>
           (\<forall>g. same_outside Y h' g \<longrightarrow> read_items d g res' = Some (deep_merge R I))"
  using assms(2-)
proof (induction items arbitrary: h res R I)
  case Nil
  from Nil.prems(4) have "read_items d h [] = Some I" by (metis same_outside_refl)
  then have "I = []" by simp
  with Nil.prems show ?case by simp
next
  case (Cons kv items)
  obtain key "value" where kv: "kv = (key, value)" by (cases kv)
  note Y = Cons.prems(1) and rY = Cons.prems(2) and res = Cons.prems(3)
  from Cons.prems(4) have stableR: "\<forall>g. same_outside Y h g \<longrightarrow> read_items d g res = Some R"
    and stableI: "\<forall>g. same_outside Y h g \<longrightarrow> read_items d g ((key, value) # items) = Some I"
    by (simp_all add: kv)
  from stableI have "read_items d h ((key, value) # items) = Some I" by (metis same_outside_refl)
  then obtain jv I' where jv: "value_of d h value = Some jv"
    and I': "read_items d h items = Some I'" and I: "I = (key, jv) # I'"
    by (auto simp: read_items_Cons_Some)
  have stablev: "value_of d g value = Some jv" and stableI': "read_items d g items = Some I'"
    if "same_outside Y h g" for g
    using stableI that by (auto simp: I read_items_Cons_Some)
  from stableR have Rh: "read_items d h res = Some R" by (metis same_outside_refl)
  from rY Y have r: "r < length h" by blast
  let ?merged = "merged_value (map_of R key) jv"
  have pure: "deep_merge R I = deep_merge (AList.update key ?merged R) I'"
    unfolding I by (rule deep_merge_step)
  have step: "\<exists>h2 res2. length h \<le> length h2 \<and> Y \<subseteq> {..<length h2} \<and>
      heap_lookup h2 r = Some (HDict res2) \<and>
      merge_items d h r ((key, value) # items) = merge_items d h2 r items \<and>
      (\<forall>g. same_outside Y h2 g \<longrightarrow>
           read_items d g res2 = Some (AList.update key ?merged R) \<and>
           read_items d g items = Some I')"
  proof (cases "\<exists>a a'. map_of res key = Some (HRef a) \<and> value = HRef a' \<and>
                        is_dict h (HRef a) \<and> is_dict h (HRef a')")
    case True
    then obtain a a' where a: "map_of res key = Some (HRef a)" and a': "value = HRef a'"
      and da: "is_dict h (HRef a)" and da': "is_dict h (HRef a')"
      by blast
    from Rh a obtain jold where jold: "value_of d h (HRef a) = Some jold"
      and old: "map_of R key = Some jold"
      by (rule read_items_lookup_Some)
    from da jold obtain A where A: "jold = JObj A" by (rule is_dict_value_of)
    from da' jv a' obtain A' where A': "jv = JObj A'" by (auto elim: is_dict_value_of)
    have m: "?merged = JObj (deep_merge A A')"
      by (simp add: old A A' merged_value_def)
    have "\<forall>g. same_outside Y h g \<longrightarrow>
          value_of d g (HRef a) = Some (JObj A) \<and> value_of d g (HRef a') = Some (JObj A')"
    proof (intro allI impI)
      fix g assume g: "same_outside Y h g"
      with stableR have "read_items d g res = Some R" by blast
      from read_items_lookup [OF this, of key] a old A
      have "value_of d g (HRef a) = Some (JObj A)" by simp
      moreover from stablev [OF g] a' A' have "value_of d g (HRef a') = Some (JObj A')" by simp
      ultimately show "value_of d g (HRef a) = Some (JObj A) \<and>
                       value_of d g (HRef a') = Some (JObj A')" ..
    qed
    from calls [OF Y this] obtain h1 r1 where run: "deep_merge_h d h a a' = Inr (h1, r1)"
      and stable1: "\<forall>g. same_outside Y h1 g \<longrightarrow> value_of d g (HRef r1) = Some (JObj (deep_merge A A'))"
      by blast
    from deep_merge_h_frame [OF run]
    have ext: "length h \<le> length h1" "\<forall>x<length h. h1 ! x = h ! x" by simp_all
    from ext r res have res1: "heap_lookup h1 r = Some (HDict res)"
      by (simp add: heap_lookup_def split: if_splits)
    let ?res2 = "AList.update key (HRef r1) res"
    let ?h2 = "dict_store h1 r key (HRef r1)"
    from res1 have h2: "?h2 = h1[r := HDict ?res2]" by (simp add: dict_store_def)
    from res1 have r1len: "r < length h1" by (simp add: heap_lookup_def split: if_splits)
    have "merge_items d h r ((key, value) # items) = merge_items d ?h2 r items"
      using res a a' da da' run by simp
    moreover have "heap_lookup ?h2 r = Some (HDict ?res2)"
      using r1len by (simp add: h2 heap_lookup_def)
    moreover have "read_items d g ?res2 = Some (AList.update key ?merged R) \<and>
                   read_items d g items = Some I'" if g: "same_outside Y ?h2 g" for g
    proof -
      from rY g have g1: "same_outside Y h1 g" by (rule same_outside_dict_store)
      have "read_items d g res = Some R"
        using stableR ext g1 by (rule stable_items_extend)
      moreover from stable1 g1 have "value_of d g (HRef r1) = Some (JObj (deep_merge A A'))"
        by blast
      ultimately have "read_items d g ?res2 = Some (AList.update key (JObj (deep_merge A A')) R)"
        by (rule read_items_update)
      moreover have "read_items d g items = Some I'"
      proof (rule stable_items_extend [OF _ ext g1])
        show "\<forall>g. same_outside Y h g \<longrightarrow> read_items d g items = Some I'"
          using stableI' by blast
      qed
      ultimately show ?thesis by (simp add: m)
    qed
    ultimately show ?thesis
      using ext(1) Y by (intro exI [of _ ?h2] exI [of _ ?res2]) auto
  next
    case False
    let ?res2 = "AList.update key value res"
    let ?h2 = "dict_store h r key value"
    from res have h2: "?h2 = h[r := HDict ?res2]" by (simp add: dict_store_def)
    have run: "merge_items d h r ((key, value) # items) = merge_items d ?h2 r items"
      using res False by (auto split: option.splits hval.splits)
    have m: "?merged = jv"
    proof (cases "map_of R key")
      case None
      then show ?thesis by (simp add: merged_value_def)
    next
      case (Some jold)
      with read_items_lookup [OF Rh, of key] obtain old where old: "map_of res key = Some old"
        and jold: "value_of d h old = Some jold"
        by (cases "map_of res key") simp_all
      have "\<not> (\<exists>A A'. jold = JObj A \<and> jv = JObj A')"
      proof
        assume "\<exists>A A'. jold = JObj A \<and> jv = JObj A'"
        then obtain A A' where A: "jold = JObj A" and A': "jv = JObj A'" by blast
        from jold A have d1: "is_dict h old" by (auto intro: value_of_is_dict)
        from jv A' have d2: "is_dict h value" by (auto intro: value_of_is_dict)
        from d1 obtain a where "old = HRef a" by (cases old) (simp_all add: is_dict_def)
        moreover from d2 obtain a' where "value = HRef a'"
          by (cases "value") (simp_all add: is_dict_def)
        ultimately show False using False old d1 d2 by blast
      qed
      with Some show ?thesis
        by (auto simp: merged_value_def split: json.splits)
    qed
    have "heap_lookup ?h2 r = Some (HDict ?res2)"
      using r by (simp add: h2 heap_lookup_def)
    moreover have "read_items d g ?res2 = Some (AList.update key ?merged R) \<and>
                   read_items d g items = Some I'" if g: "same_outside Y ?h2 g" for g
    proof -
      from rY g have g0: "same_outside Y h g" by (rule same_outside_dict_store)
      with stableR have "read_items d g res = Some R" by blast
      then have "read_items d g ?res2 = Some (AList.update key jv R)"
        using stablev [OF g0] by (rule read_items_update)
      with stableI' [OF g0] show ?thesis by (simp add: m)
    qed
    ultimately show ?thesis
      using run Y by (intro exI [of _ ?h2] exI [of _ ?res2]) auto
  qed
  then obtain h2 res2 where Y2: "Y \<subseteq> {..<length h2}"
    and res2: "heap_lookup h2 r = Some (HDict res2)"
    and run: "merge_items d h r ((key, value) # items) = merge_items d h2 r items"
    and stable2: "\<forall>g. same_outside Y h2 g \<longrightarrow>
           read_items d g res2 = Some (AList.update key ?merged R) \<and>
           read_items d g items = Some I'"
    by blast
  from Cons.IH [OF Y2 rY res2 stable2] pure run show ?case
    by (simp add: kv)
qed

text \<open>
  When \<open>base\<close> and \<open>override\<close> read as JSON objects within \<open>depth\<close> levels, the call
  returns, and its result reads as the merge of the two objects.
\<close>

lemma deep_merge_h_refines_stable:
  assumes "X \<subseteq> {..<length h}"
    and "\<forall>g. same_outside X h g \<longrightarrow>
          value_of d g (HRef a) = Some (JObj A) \<and> value_of d g (HRef a') = Some (JObj A')"
  shows "\<exists>h' r. deep_merge_h d h a a' = Inr (h', r) \<and>
        (\<forall>g. same_outside X h' g \<longrightarrow> value_of d g (HRef r) = Some (JObj (deep_merge A A')))"
  using assms
proof (induction d arbitrary: X h a a' A A')
  case 0
  from "0.prems"(2) have "value_of 0 h (HRef a) = Some (JObj A)" by (metis same_outside_refl)
  then show ?case by simp
next
  case (Suc d)
  note X = Suc.prems(1)
  from Suc.prems(2) have va: "value_of (Suc d) h (HRef a) = Some (JObj A)"
    and va': "value_of (Suc d) h (HRef a') = Some (JObj A')"
    by (metis same_outside_refl)+
  from va obtain n0 bkvs where "Suc d = Suc n0" and b: "heap_lookup h a = Some (HDict bkvs)"
    and "read_items n0 h bkvs = Some A"
    by (rule value_of_JObj)
  from va' obtain n1 okvs where "Suc d = Suc n1" and o: "heap_lookup h a' = Some (HDict okvs)"
    and "read_items n1 h okvs = Some A'"
    by (rule value_of_JObj)
  have notin: "x \<notin> X" if "x = a \<or> x = a'" for x
  proof
    assume xX: "x \<in> X"
    with X have xl: "x < length h" by blast
    let ?g = "h[x := HList []]"
    have "?g ! y = h ! y" if "y \<notin> X" for y
    proof -
      from that xX have "x \<noteq> y" by blast
      then show ?thesis by (rule nth_list_update_neq)
    qed
    then have "same_outside X h ?g" by (simp add: same_outside_def)
    with Suc.prems(2) have "value_of (Suc d) ?g (HRef a) = Some (JObj A)"
      and "value_of (Suc d) ?g (HRef a') = Some (JObj A')" by blast+
    with that xl show False by (auto simp: heap_lookup_def)
  qed
  let ?r = "length h"
  let ?h1 = "h @ [HDict bkvs]"
  let ?Y = "insert ?r X"
  have stable: "read_items d g bkvs = Some A \<and> read_items d g okvs = Some A'"
    if g: "same_outside X h g" for g
  proof -
    from g notin b o have "heap_lookup g a = Some (HDict bkvs)" "heap_lookup g a' = Some (HDict okvs)"
      by (simp_all add: same_outside_lookup)
    moreover from g Suc.prems(2) have "value_of (Suc d) g (HRef a) = Some (JObj A)"
      "value_of (Suc d) g (HRef a') = Some (JObj A')" by blast+
    ultimately show ?thesis by (auto simp: read_items_def)
  qed
  have stable1: "\<forall>g. same_outside ?Y ?h1 g \<longrightarrow>
      read_items d g bkvs = Some A \<and> read_items d g okvs = Some A'"
  proof (intro allI impI)
    fix g assume g: "same_outside ?Y ?h1 g"
    let ?g0 = "take (length h) g"
    from g have g0: "same_outside X h ?g0"
      by (auto simp: same_outside_def nth_append)
    from g have ext: "length ?g0 \<le> length g" "\<forall>x<length ?g0. g ! x = ?g0 ! x"
      by (auto simp: same_outside_def)
    from stable [OF g0] show "read_items d g bkvs = Some A \<and> read_items d g okvs = Some A'"
      by (auto intro: read_items_extend [OF ext])
  qed
  have "\<exists>h' res'. merge_items d ?h1 ?r okvs = Inr (h', ?r) \<and>
           heap_lookup h' ?r = Some (HDict res') \<and>
           (\<forall>g. same_outside ?Y h' g \<longrightarrow> read_items d g res' = Some (deep_merge A A'))"
  proof (rule merge_items_refines [where res = bkvs])
    fix X h a a' A A'
    assume "X \<subseteq> {..<length h}"
      and "\<forall>g. same_outside X h g \<longrightarrow>
          value_of d g (HRef a) = Some (JObj A) \<and> value_of d g (HRef a') = Some (JObj A')"
    then show "\<exists>h' r. deep_merge_h d h a a' = Inr (h', r) \<and>
        (\<forall>g. same_outside X h' g \<longrightarrow> value_of d g (HRef r) = Some (JObj (deep_merge A A')))"
      by (rule Suc.IH)
  next
    show "?Y \<subseteq> {..<length ?h1}" using X by auto
    show "?r \<in> ?Y" by simp
    show "heap_lookup ?h1 ?r = Some (HDict bkvs)" by (simp add: heap_lookup_def)
    show "\<forall>g. same_outside ?Y ?h1 g \<longrightarrow>
      read_items d g bkvs = Some A \<and> read_items d g okvs = Some A'"
      by (rule stable1)
  qed
  then obtain h' res' where run: "merge_items d ?h1 ?r okvs = Inr (h', ?r)"
    and res': "heap_lookup h' ?r = Some (HDict res')"
    and stable': "\<forall>g. same_outside ?Y h' g \<longrightarrow> read_items d g res' = Some (deep_merge A A')"
    by blast
  from b o run have call: "deep_merge_h (Suc d) h a a' = Inr (h', ?r)" by simp
  have "value_of (Suc d) g (HRef ?r) = Some (JObj (deep_merge A A'))"
    if g: "same_outside X h' g" for g
  proof -
    from X have "?r \<notin> X" by auto
    with g res' have "heap_lookup g ?r = Some (HDict res')"
      by (simp add: same_outside_lookup)
    moreover from g have "same_outside ?Y h' g"
      by (rule same_outside_mono [rotated]) auto
    with stable' have "read_items d g res' = Some (deep_merge A A')" by blast
    ultimately show ?thesis by (simp add: read_items_def)
  qed
  with call show ?case by blast
qed

lemma deep_merge_h_refines:
  assumes "value_of d h (HRef base) = Some (JObj B)"
    and "value_of d h (HRef override) = Some (JObj ov)"
  shows "\<exists>h' r. deep_merge_h d h base override = Inr (h', r) \<and>
           value_of d h' (HRef r) = Some (JObj (deep_merge B ov))"
proof -
  have "\<forall>g. same_outside {} h g \<longrightarrow>
          value_of d g (HRef base) = Some (JObj B) \<and> value_of d g (HRef override) = Some (JObj ov)"
  proof (intro allI impI)
    fix g assume "same_outside {} h g"
    then have "g = h" by (auto simp: same_outside_def intro: nth_equalityI)
    with assms show "value_of d g (HRef base) = Some (JObj B) \<and>
                     value_of d g (HRef override) = Some (JObj ov)" by simp
  qed
  from deep_merge_h_refines_stable [OF _ this]
  obtain h' r where "deep_merge_h d h base override = Inr (h', r)"
    and "\<forall>g. same_outside {} h' g \<longrightarrow> value_of d g (HRef r) = Some (JObj (deep_merge B ov))"
    by auto
  then show ?thesis by (metis same_outside_refl)
qed

end
